theory Spec2Isabelle
  imports Main "HOL-Library.Char_ord" "HOL-Library.List_Lexorder" "HOL-Library.Product_Lexorder"
    "HOL-Library.Multiset" "HOL-Library.AList"
begin


section \<open>Python strings\<close>

text \<open>
  Python \<open>str\<close> values are modelled as \<^typ>\<open>string\<close>.  Case conversion is the ASCII one;
  the inputs of the analysed functions are identifiers, HTTP verbs and URL patterns.
\<close>

datatype py_error = IndexError

definition ascii_lowercase :: string where
  "ascii_lowercase = ''abcdefghijklmnopqrstuvwxyz''"

definition ascii_uppercase :: string where
  "ascii_uppercase = ''ABCDEFGHIJKLMNOPQRSTUVWXYZ''"

definition lower_char :: "char \<Rightarrow> char" where
  "lower_char c = (case map_of (zip ascii_uppercase ascii_lowercase) c of Some d \<Rightarrow> d | None \<Rightarrow> c)"

definition upper_char :: "char \<Rightarrow> char" where
  "upper_char c = (case map_of (zip ascii_lowercase ascii_uppercase) c of Some d \<Rightarrow> d | None \<Rightarrow> c)"

definition lower :: "string \<Rightarrow> string" where
  "lower s = map lower_char s"

definition upper :: "string \<Rightarrow> string" where
  "upper s = map upper_char s"

definition endswith :: "string \<Rightarrow> string \<Rightarrow> bool" where
  "endswith w s = (length s \<le> length w \<and> drop (length w - length s) w = s)"

definition startswith :: "string \<Rightarrow> string \<Rightarrow> bool" where
  "startswith w s = (take (length s) w = s)"

text \<open>\<open>w[:-n]\<close>\<close>

definition drop_last :: "nat \<Rightarrow> string \<Rightarrow> string" where
  "drop_last n w = take (length w - n) w"

text \<open>\<open>w[-2]\<close>, which raises \<open>IndexError\<close> on a string shorter than two characters.\<close>

definition index_m2 :: "string \<Rightarrow> py_error + char" where
  "index_m2 w = (if length w < 2 then Inl IndexError else Inr (w ! (length w - 2)))"

section \<open>Pluralizer (\<open>django_creator.pluralize\<close>)\<close>

definition irregulars :: "(string \<times> string) list" where
  "irregulars =
    [(''person'', ''people''), (''man'', ''men''), (''woman'', ''women''),
     (''child'', ''children''), (''foot'', ''feet''), (''tooth'', ''teeth''),
     (''goose'', ''geese''), (''mouse'', ''mice''), (''ox'', ''oxen''),
     (''leaf'', ''leaves''), (''life'', ''lives''), (''knife'', ''knives''),
     (''wife'', ''wives''), (''elf'', ''elves''), (''loaf'', ''loaves''),
     (''potato'', ''potatoes''), (''tomato'', ''tomatoes''), (''cactus'', ''cacti''),
     (''focus'', ''foci''), (''fungus'', ''fungi''), (''nucleus'', ''nuclei''),
     (''syllabus'', ''syllabi''), (''analysis'', ''analyses''), (''diagnosis'', ''diagnoses''),
     (''basis'', ''bases''), (''crisis'', ''crises''), (''thesis'', ''theses''),
     (''datum'', ''data''), (''medium'', ''media''), (''criterion'', ''criteria''),
     (''index'', ''indices''), (''matrix'', ''matrices''), (''vertex'', ''vertices''),
     (''alumnus'', ''alumni''), (''series'', ''series''), (''species'', ''species''),
     (''deer'', ''deer''), (''fish'', ''fish''), (''sheep'', ''sheep''),
     (''moose'', ''moose''), (''aircraft'', ''aircraft'')]"

definition o_exceptions :: "string list" where
  "o_exceptions = [''photo'', ''piano'', ''halo'', ''studio'', ''video'', ''radio'', ''solo'']"

definition vowels :: "char set" where
  "vowels = set ''aeiou''"

text \<open>
  The suffix rules, applied to the lower-cased word once the irregular table has missed,
  in the order of the source.  The tests \<open>word[-2] not in 'aeiou'\<close> are evaluated only
  when the preceding \<open>endswith\<close> holds (\<open>and\<close> is short-circuit) and raise
  \<open>IndexError\<close> on a one-letter word.
\<close>

definition suffix_tail :: "string \<Rightarrow> py_error + string" where
  "suffix_tail word =
    (if endswith word ''ex'' \<or> endswith word ''ix'' then Inr (drop_last 2 word @ ''ices'')
     else if endswith word ''s'' \<or> endswith word ''ss'' \<or> endswith word ''sh''
           \<or> endswith word ''ch'' \<or> endswith word ''x'' \<or> endswith word ''z''
       then Inr (word @ ''es'')
     else Inr (word @ ''s''))"

definition suffix_o :: "string \<Rightarrow> py_error + string" where
  "suffix_o word =
    (if endswith word ''o'' then
       (case index_m2 word of
          Inl e \<Rightarrow> Inl e
        | Inr c \<Rightarrow>
            if c \<notin> vowels then
              (if word \<in> set o_exceptions then Inr (word @ ''s'') else Inr (word @ ''es''))
            else suffix_tail word)
     else suffix_tail word)"

definition suffix_y :: "string \<Rightarrow> py_error + string" where
  "suffix_y word =
    (if endswith word ''y'' then
       (case index_m2 word of
          Inl e \<Rightarrow> Inl e
        | Inr c \<Rightarrow> if c \<notin> vowels then Inr (drop_last 1 word @ ''ies'') else suffix_o word)
     else suffix_o word)"

definition suffix_rules :: "string \<Rightarrow> py_error + string" where
  "suffix_rules word =
    (if endswith word ''is'' then Inr (drop_last 2 word @ ''es'')
     else if endswith word ''on'' then Inr (drop_last 2 word @ ''a'')
     else if endswith word ''us'' then Inr (drop_last 2 word @ ''i'')
     else if endswith word ''f'' then Inr (drop_last 1 word @ ''ves'')
     else if endswith word ''fe'' then Inr (drop_last 2 word @ ''ves'')
     else suffix_y word)"

definition pluralize :: "string \<Rightarrow> py_error + string" where
  "pluralize word0 =
    (if word0 = [] then Inr word0
     else let word = lower word0 in
       (case map_of irregulars word of
          Some p \<Rightarrow> Inr p
        | None \<Rightarrow> suffix_rules word))"

section \<open>Regular-expression substitution\<close>

text \<open>
  The source rewrites strings with \<open>re.sub\<close> and \<open>re.findall\<close>.  A pattern is modelled by
  its matcher: a function that, given the text from the current position on, returns the
  captured group and the text after the match, or \<open>None\<close> when the pattern does not match
  at this position.  \<open>sub_with\<close> is the scan of \<open>re.sub\<close>: matches are found left to right and
  do not overlap; where the pattern does not match, the character is copied and the scan
  moves one position on.  (An empty match is replaced and the scan moves one character on,
  as in Python; none of the patterns below matches the empty string.)
\<close>

type_synonym matcher = "string \<Rightarrow> (string \<times> string) option"

function sub_with :: "matcher \<Rightarrow> (string \<Rightarrow> string) \<Rightarrow> string \<Rightarrow> string" where
  "sub_with m rep [] = []"
| "sub_with m rep (c # cs) =
     (case m (c # cs) of
        None \<Rightarrow> c # sub_with m rep cs
      | Some (g, rest) \<Rightarrow>
          if length rest \<le> length cs then rep g @ sub_with m rep rest
          else rep g @ c # sub_with m rep cs)"
  by pat_completeness auto
termination
  by (relation "measure (\<lambda>(m, rep, s). length s)") auto

text \<open>\<open>re.findall\<close> for a pattern with one group: the groups of the successive matches.\<close>

function findall_with :: "matcher \<Rightarrow> string \<Rightarrow> string list" where
  "findall_with m [] = []"
| "findall_with m (c # cs) =
     (case m (c # cs) of
        None \<Rightarrow> findall_with m cs
      | Some (g, rest) \<Rightarrow>
          if length rest \<le> length cs then g # findall_with m rest
          else g # findall_with m cs)"
  by pat_completeness auto
termination
  by (relation "measure (\<lambda>(m, s). length s)") auto

text \<open>The replacement template \<open>{\1}\<close>.\<close>

definition braces :: "string \<Rightarrow> string" where
  "braces g = ''{'' @ g @ ''}''"

text \<open>
  \<open>([^x]+)x\<close>: a non-empty run of characters other than \<open>x\<close>, as long as possible, followed
  by \<open>x\<close>.  The run is greedy and a shorter run is never followed by \<open>x\<close>, so the match
  is unique.
\<close>

definition run_until :: "char \<Rightarrow> matcher" where
  "run_until x s =
    (let n = takeWhile (\<lambda>c. c \<noteq> x) s; r = dropWhile (\<lambda>c. c \<noteq> x) s
     in if n \<noteq> [] \<and> r \<noteq> [] then Some (n, tl r) else None)"

definition strip_prefix :: "string \<Rightarrow> string \<Rightarrow> string option" where
  "strip_prefix p s = (if startswith s p then Some (drop (length p) s) else None)"

text \<open>The first alternative, in order, with which the rest of the pattern matches.\<close>

fun first_alt :: "string list \<Rightarrow> matcher \<Rightarrow> matcher" where
  "first_alt [] k s = None"
| "first_alt (a # as) k s =
     (case strip_prefix a s of
        None \<Rightarrow> first_alt as k s
      | Some r \<Rightarrow> (case k r of None \<Rightarrow> first_alt as k s | Some res \<Rightarrow> Some res))"

section \<open>Path translator of \<open>djang.py\<close>\<close>

text \<open>\<open>_slug = <(?:int|str|slug|uuid|path):([^>]+)>\<close>\<close>

definition slug_match :: matcher where
  "slug_match s =
    (case strip_prefix ''<'' s of
       None \<Rightarrow> None
     | Some t \<Rightarrow>
         first_alt [''int:'', ''str:'', ''slug:'', ''uuid:'', ''path:''] (run_until CHR ''>'') t)"

text \<open>\<open>_angle = <([^>]+)>\<close>\<close>

definition angle_match :: matcher where
  "angle_match s = (case strip_prefix ''<'' s of None \<Rightarrow> None | Some t \<Rightarrow> run_until CHR ''>'' t)"

text \<open>\<open>{([^}]+)}\<close>\<close>

definition brace_match :: matcher where
  "brace_match s = (case strip_prefix ''{'' s of None \<Rightarrow> None | Some t \<Rightarrow> run_until CHR ''}'' t)"

record param =
  p_name :: string
  p_in :: string
  p_required :: bool
  p_schema_type :: string

definition path_param :: "string \<Rightarrow> param" where
  "path_param n = \<lparr>p_name = n, p_in = ''path'', p_required = True, p_schema_type = ''string''\<rparr>"

definition lstrip :: "char \<Rightarrow> string \<Rightarrow> string" where
  "lstrip x s = dropWhile (\<lambda>c. c = x) s"

definition rstrip :: "char \<Rightarrow> string \<Rightarrow> string" where
  "rstrip x s = rev (dropWhile (\<lambda>c. c = x) (rev s))"


definition django_to_openapi :: "string \<Rightarrow> string \<times> param list" where
  "django_to_openapi path =
    (let openapi = sub_with slug_match braces path;
         openapi = sub_with angle_match braces openapi;
         params = map path_param (findall_with brace_match openapi)
     in (''/'' @ lstrip CHR ''/'' openapi, params))"

section \<open>Path translator of \<open>django_creator.py\<close>\<close>

text \<open>
  \<open><(?:[^:]+:)?([^>]+)>\<close>: the optional converter is tried first, and is everything up to
  the first colon; when the rest does not match after it, the name is tried right after
  the opening bracket.
\<close>

definition conv_angle_match :: matcher where
  "conv_angle_match s =
    (case strip_prefix ''<'' s of
       None \<Rightarrow> None
     | Some t \<Rightarrow>
         (case (case run_until CHR '':'' t of None \<Rightarrow> None | Some (c, r) \<Rightarrow> run_until CHR ''>'' r) of
            Some res \<Rightarrow> Some res
          | None \<Rightarrow> run_until CHR ''>'' t))"

text \<open>\<open>\(\?P<([^>]+)>[^)]+\)\<close>\<close>

definition named_group_match :: matcher where
  "named_group_match s =
    (case strip_prefix ''(?P<'' s of
       None \<Rightarrow> None
     | Some t \<Rightarrow>
         (case run_until CHR ''>'' t of
            None \<Rightarrow> None
          | Some (g, r) \<Rightarrow>
              (case run_until CHR '')'' r of None \<Rightarrow> None | Some (b, rest) \<Rightarrow> Some (g, rest))))"

definition convert_django_path_to_openapi :: "string \<Rightarrow> string" where
  "convert_django_path_to_openapi path0 =
    (if path0 = [] then ''/''
     else
       let path = (if \<not> startswith path0 ''/'' then ''/'' @ path0 else path0);
           openapi_path = sub_with conv_angle_match braces path;
           openapi_path = sub_with named_group_match braces openapi_path;
           openapi_path = (if endswith openapi_path ''/'' \<and> length openapi_path > 1
                           then drop_last 1 openapi_path else openapi_path)
       in if openapi_path = ''/'' then ''/proxy/django'' else openapi_path)"

text \<open>
  What the translators are to remove: a place where the angle-bracket pattern \<open><[^>]+>\<close>
  still matches.  A named regex group \<open>(?P<name>...)\<close> contains such a place.
\<close>

fun has_angle :: "string \<Rightarrow> bool" where
  "has_angle [] = False"
| "has_angle (c # cs) = (angle_match (c # cs) \<noteq> None \<or> has_angle cs)"

text \<open>
  Placeholders are not nested: no \<open><\<close> stands between a \<open><\<close> and the next \<open>>\<close>.  The flag
  says whether a \<open><\<close> is open.
\<close>

fun flat_from :: "bool \<Rightarrow> string \<Rightarrow> bool" where
  "flat_from b [] = True"
| "flat_from b (c # cs) =
     (if c = CHR ''<'' then \<not> b \<and> flat_from True cs
      else if c = CHR ''>'' then flat_from False cs
      else flat_from b cs)"

definition flat :: "string \<Rightarrow> bool" where
  "flat s = flat_from False s"

section \<open>Formatting\<close>

text \<open>\<open>str(n)\<close> of a natural number, as an f-string prints \<open>len(...)\<close>.\<close>

definition digit_char :: "nat \<Rightarrow> char" where
  "digit_char k = ''0123456789abcdef'' ! (k mod 16)"

fun str_nat :: "nat \<Rightarrow> string" where
  "str_nat n = (if n < 10 then [digit_char n] else str_nat (n div 10) @ [digit_char (n mod 10)])"

text \<open>
  \<open>repr\<close> of a string, as an f-string prints the elements of a list: single quotes unless
  the string holds a single and no double quote; backslash, the quote and control
  characters escaped.  Bytes above 127 are kept (printable text).
\<close>

definition repr_char :: "char \<Rightarrow> char \<Rightarrow> string" where
  "repr_char q c =
    (if c = CHR 0x5C then [CHR 0x5C, CHR 0x5C]
     else if c = q then [CHR 0x5C, q]
     else if c = CHR 0x0A then [CHR 0x5C, CHR ''n'']
     else if c = CHR 0x0D then [CHR 0x5C, CHR ''r'']
     else if c = CHR 0x09 then [CHR 0x5C, CHR ''t'']
     else if (of_char c :: nat) < 32 \<or> (of_char c :: nat) = 127
       then [CHR 0x5C, CHR ''x'', digit_char (of_char c div 16), digit_char (of_char c mod 16)]
     else [c])"

definition repr_str :: "string \<Rightarrow> string" where
  "repr_str s =
    (let q = (if CHR 0x27 \<in> set s \<and> CHR 0x22 \<notin> set s then CHR 0x22 else CHR 0x27)
     in [q] @ concat (map (repr_char q) s) @ [q])"

text \<open>\<open>sep.join(xs)\<close>\<close>

fun join :: "string \<Rightarrow> string list \<Rightarrow> string" where
  "join sep [] = []"
| "join sep [x] = x"
| "join sep (x # y # ys) = x @ sep @ join sep (y # ys)"

definition repr_str_list :: "string list \<Rightarrow> string" where
  "repr_str_list xs = ''['' @ join '', '' (map repr_str xs) @ '']''"

text \<open>An optional string in an f-string: \<open>None\<close> prints as \<open>None\<close>.\<close>

definition fmt_opt :: "string option \<Rightarrow> string" where
  "fmt_opt x = (case x of None \<Rightarrow> ''None'' | Some s \<Rightarrow> s)"

section \<open>Route records\<close>

text \<open>
  The dictionaries appended to \<open>self.routes\<close>.  The operation id is optional: a
  \<open>name=\<close> keyword that is not a string literal gives \<open>None\<close>.
\<close>

record route =
  r_path :: string
  r_method :: string
  r_operation_id :: "string option"
  r_description :: string
  r_parameters :: "param list"

section \<open>Spec assembler (\<open>djang._build_spec\<close>)\<close>

record operation =
  o_operationId :: "string option"
  o_description :: string
  o_responses :: "(string \<times> string) list"
  o_parameters :: "param list option"

text \<open>
  The document of \<open>spec.to_dict()\<close>: \<open>paths\<close> maps a path to its operations by method.
  Python dictionaries keep insertion order, so both levels are association lists.
\<close>

record openapi_doc =
  d_title :: string
  d_version :: string
  d_openapi :: string
  d_paths :: "(string \<times> (string \<times> operation) list) list"
  d_servers :: "(string \<times> string) list list"

text \<open>
  \<open>APISpec.path(path, operations={method: operation})\<close> of the apispec library, for input it
  accepts: the operations are merged into the entry of the path, which is created when
  missing (\<open>self._paths.setdefault(path, operations).update(operations)\<close>).  The library
  raises an error for an empty path, for a method that is neither an HTTP verb in lower case
  nor an extension name, and for two parameters of one operation with the same name and
  location; \<open>accepted\<close> is a route record for which it does not, with an HTTP verb as its
  method.
\<close>

definition http_methods :: "string list" where
  "http_methods = [''get'', ''post'', ''put'', ''patch'', ''delete'', ''head'', ''options'', ''trace'']"

definition accepted :: "route \<Rightarrow> bool" where
  "accepted r =
    (r_path r \<noteq> [] \<and> r_method r \<in> set http_methods \<and>
     distinct (map (\<lambda>q. (p_name q, p_in q)) (r_parameters r)))"

definition spec_path :: "string \<Rightarrow> string \<Rightarrow> operation \<Rightarrow>
    (string \<times> (string \<times> operation) list) list \<Rightarrow> (string \<times> (string \<times> operation) list) list" where
  "spec_path p m op ps =
    (case map_of ps p of
       None \<Rightarrow> ps @ [(p, [(m, op)])]
     | Some ops \<Rightarrow> AList.update p (AList.update m op ops) ps)"

definition route_key :: "route \<Rightarrow> string" where
  "route_key r = r_path r @ '':'' @ r_method r"

text \<open>The loop that keeps the first route of every key.\<close>

fun unique_loop :: "string set \<Rightarrow> route list \<Rightarrow> route list" where
  "unique_loop seen_routes [] = []"
| "unique_loop seen_routes (r # rs) =
     (if route_key r \<notin> seen_routes then r # unique_loop (insert (route_key r) seen_routes) rs
      else unique_loop seen_routes rs)"

definition operation_of :: "route \<Rightarrow> operation" where
  "operation_of r =
    \<lparr>o_operationId = r_operation_id r,
     o_description = r_description r,
     o_responses = [(''200'', ''Successful response'')],
     o_parameters = (if r_parameters r \<noteq> [] then Some (r_parameters r) else None)\<rparr>"

fun add_paths :: "route list \<Rightarrow> (string \<times> (string \<times> operation) list) list \<Rightarrow>
    (string \<times> (string \<times> operation) list) list" where
  "add_paths [] ps = ps"
| "add_paths (r # rs) ps = add_paths rs (spec_path (r_path r) (r_method r) (operation_of r) ps)"

definition sort_routes :: "route list \<Rightarrow> route list" where
  "sort_routes routes = sort_key (\<lambda>r. (r_path r, r_method r)) routes"

text \<open>
  \<open>_build_spec\<close> sorts its argument in place, so it returns the document together with
  the list the caller holds afterwards.
\<close>

definition build_spec :: "route list \<Rightarrow> openapi_doc \<times> route list" where
  "build_spec routes0 =
    (let routes = sort_routes routes0;
         unique_routes = unique_loop {} routes;
         doc = \<lparr>d_title = ''DjangoApp'', d_version = ''1.0.0'', d_openapi = ''3.0.2'',
                d_paths = add_paths unique_routes [],
                d_servers = [[(''url'', ''/proxy/django''), (''description'', ''API with base path'')]]\<rparr>
     in (doc, routes))"

text \<open>The operation a document holds for a path and a method, and all its operations.\<close>

definition lookup_op :: "openapi_doc \<Rightarrow> string \<Rightarrow> string \<Rightarrow> operation option" where
  "lookup_op doc p m = (case map_of (d_paths doc) p of None \<Rightarrow> None | Some ops \<Rightarrow> map_of ops m)"

definition operations :: "openapi_doc \<Rightarrow> (string \<times> string \<times> operation) list" where
  "operations doc = concat (map (\<lambda>(p, ops). map (\<lambda>(m, op). (p, m, op)) ops) (d_paths doc))"

text \<open>Route records for the examples: what \<open>_add_route\<close> stores for a path and a verb.\<close>

definition mk_route :: "string \<Rightarrow> string \<Rightarrow> string \<Rightarrow> route" where
  "mk_route p m d =
    \<lparr>r_path = p, r_method = m, r_operation_id = Some ''view'', r_description = d, r_parameters = []\<rparr>"

section \<open>Syntax trees\<close>

text \<open>
  The part of Python's \<open>ast\<close> the visitors look at.  A keyword argument is a pair of its
  name (\<open>None\<close> for \<open>**kwargs\<close>) and its value.  \<open>DictE\<close> holds the keys that are expressions
  (a \<open>**\<close> entry has none) and the values.  \<open>OtherE\<close> and \<open>OtherS\<close> stand for every other
  expression and statement, with their children in the order \<open>generic_visit\<close> meets them.
  \<open>FunctionDef\<close> holds the name, the expressions of the argument list, the body, the
  decorators and the return annotation (none or one), in the order of the node's fields;
  \<open>ClassDef\<close> the name, the bases, the keywords, the body and the decorators.
\<close>

datatype expr =
    Name string
  | Attribute expr string
  | Call expr "expr list" "(string option \<times> expr) list"
  | Str string
  | ListE "expr list"
  | TupleE "expr list"
  | DictE "expr list" "expr list"
  | OtherE "expr list"

datatype stmt =
    Assign "expr list" expr
  | AugAssign expr expr
  | ExprS expr
  | FunctionDef string "expr list" "stmt list" "expr list" "expr list"
  | ClassDef string "expr list" "(string option \<times> expr) list" "stmt list" "expr list"
  | OtherS "node list"
and node = NodeE expr | NodeS stmt

text \<open>\<open>_str\<close> and \<open>_str_list\<close>; the latter keeps the non-empty string literals.\<close>

fun py_str :: "expr \<Rightarrow> string option" where
  "py_str (Str s) = Some s"
| "py_str _ = None"

definition truthy_str :: "expr \<Rightarrow> string option" where
  "truthy_str e = (case py_str e of Some s \<Rightarrow> if s \<noteq> [] then Some s else None | None \<Rightarrow> None)"

fun py_str_list :: "expr \<Rightarrow> string list" where
  "py_str_list (ListE elts) = List.map_filter truthy_str elts"
| "py_str_list (TupleE elts) = List.map_filter truthy_str elts"
| "py_str_list _ = []"

text \<open>The first keyword argument with a given name.\<close>

definition find_kw :: "string \<Rightarrow> (string option \<times> expr) list \<Rightarrow> expr option" where
  "find_kw n kws = map_option snd (find (\<lambda>kw. fst kw = Some n) kws)"

fun is_substring :: "string \<Rightarrow> string \<Rightarrow> bool" where
  "is_substring p [] = (p = [])"
| "is_substring p (c # cs) = (startswith (c # cs) p \<or> is_substring p cs)"

section \<open>URL visitor (\<open>djang.URLVisitor\<close>)\<close>

definition VIEWSET_ACTION_METHODS :: "(string \<times> string list) list" where
  "VIEWSET_ACTION_METHODS =
    [(''list'', [''get'']), (''create'', [''post'']), (''retrieve'', [''get'']),
     (''update'', [''put'']), (''partial_update'', [''patch'']), (''destroy'', [''delete''])]"

definition VIEWSET_BASE_ACTIONS :: "(string \<times> string list) list" where
  "VIEWSET_BASE_ACTIONS =
    [(''ModelViewSet'', [''list'', ''create'', ''retrieve'', ''update'', ''partial_update'', ''destroy'']),
     (''ReadOnlyModelViewSet'', [''list'', ''retrieve'']),
     (''ViewSet'', [])]"

record url_visitor =
  v_prefix :: string
  v_routes :: "route list"
  v_includes :: "(string \<times> string) list"
  v_routers :: "string set"
  v_router_base :: "string \<rightharpoonup> string list"
  v_viewset_info :: "string \<rightharpoonup> string list"
  v_route_patterns :: "string set"

definition URLVisitor :: "string \<Rightarrow> url_visitor" where
  "URLVisitor pfx =
    \<lparr>v_prefix = pfx, v_routes = [], v_includes = [], v_routers = {}, v_router_base = Map.empty,
     v_viewset_info = Map.empty, v_route_patterns = {}\<rparr>"

definition add_route :: "url_visitor \<Rightarrow> string \<Rightarrow> string list \<Rightarrow> string option \<Rightarrow> string option \<Rightarrow> url_visitor" where
  "add_route v raw_path methods op_id description =
    (let (openapi_path, params) = django_to_openapi raw_path;
         path_method_key = openapi_path @ '':'' @ join '','' (sort methods)
     in if path_method_key \<in> v_route_patterns v then v
        else v\<lparr>v_route_patterns := insert path_method_key (v_route_patterns v),
               v_routes := v_routes v @
                 map (\<lambda>m. \<lparr>r_path = openapi_path,
                            r_method = m,
                            r_operation_id = (if m \<noteq> ''get'' then Some (fmt_opt op_id @ ''_'' @ m) else op_id),
                            r_description =
                              (case description of
                                 Some d \<Rightarrow> if d \<noteq> [] then d else upper m @ '' '' @ raw_path
                               | None \<Rightarrow> upper m @ '' '' @ raw_path),
                            r_parameters = params\<rparr>) methods\<rparr>)"

definition store_api_view_methods :: "url_visitor \<Rightarrow> string \<Rightarrow> string list \<Rightarrow> url_visitor" where
  "store_api_view_methods v func_name methods =
    v\<lparr>v_viewset_info := (v_viewset_info v)(func_name \<mapsto> map lower methods)\<rparr>"

text \<open>\<open>router_base.setdefault(k, [""])\<close>, and the same followed by \<open>.append(x)\<close>.\<close>

definition setdefault_base :: "(string \<rightharpoonup> string list) \<Rightarrow> string \<Rightarrow> (string \<rightharpoonup> string list)" where
  "setdefault_base rb k = (case rb k of None \<Rightarrow> rb(k \<mapsto> ['''']) | Some l \<Rightarrow> rb)"

definition append_base :: "(string \<rightharpoonup> string list) \<Rightarrow> string \<Rightarrow> string \<Rightarrow> (string \<rightharpoonup> string list)" where
  "append_base rb k x = rb(k \<mapsto> (case rb k of None \<Rightarrow> [''''] | Some l \<Rightarrow> l) @ [x])"

text \<open>The name a call or a view is referred by: \<open>id\<close> of a name, \<open>attr\<close> of an attribute.\<close>

fun ref_name :: "expr \<Rightarrow> string option" where
  "ref_name (Name n) = Some n"
| "ref_name (Attribute x a) = Some a"
| "ref_name _ = None"

text \<open>\<open>var.attr\<close> with \<open>var\<close> a plain name.\<close>

fun name_attr :: "expr \<Rightarrow> (string \<times> string) option" where
  "name_attr (Attribute (Name var) a) = Some (var, a)"
| "name_attr _ = None"

text \<open>
  The methods after the \<open>as_view\<close> checks: \<open>http_method_names=\<close> replaces them, the keys of
  the first dictionary argument are added.
\<close>

definition as_view_methods :: "string list \<Rightarrow> expr list \<Rightarrow> (string option \<times> expr) list \<Rightarrow> string list" where
  "as_view_methods methods0 vargs vkws =
    (let methods = (case find_kw ''http_method_names'' vkws of
                      Some value \<Rightarrow> py_str_list value | None \<Rightarrow> methods0)
     in case find (\<lambda>arg. case arg of DictE ks vs \<Rightarrow> True | _ \<Rightarrow> False) vargs of
          Some (DictE ks vs) \<Rightarrow> methods @ map lower (List.map_filter truthy_str ks)
        | _ \<Rightarrow> methods)"

text \<open>The endpoint branch of \<open>_handle_pattern_call\<close>.\<close>

definition handle_endpoint :: "url_visitor \<Rightarrow> string \<Rightarrow> expr list \<Rightarrow> (string option \<times> expr) list \<Rightarrow> url_visitor" where
  "handle_endpoint v raw_path rest keywords =
    (let full_raw = v_prefix v @ raw_path;
         view_arg = (case rest of [] \<Rightarrow> None | x # xs \<Rightarrow> Some x);
         view_name = (case view_arg of None \<Rightarrow> None | Some x \<Rightarrow> ref_name x);
         view_name = (case view_name of Some n \<Rightarrow> if n \<noteq> [] then Some n else None | None \<Rightarrow> None);
         op_id = (case find_kw ''name'' keywords of
                    Some value \<Rightarrow> py_str value
                  | None \<Rightarrow> Some (''op_'' @ str_nat (length (v_routes v))));
         op_id = (case view_name of Some n \<Rightarrow> Some n | None \<Rightarrow> op_id);
         methods = (case view_name of
                      Some n \<Rightarrow> (case v_viewset_info v n of Some ms \<Rightarrow> ms | None \<Rightarrow> [])
                    | None \<Rightarrow> []);
         methods = (case view_arg of
                      Some (Call (Attribute x a) vargs vkws) \<Rightarrow>
                        if a = ''as_view'' then as_view_methods methods vargs vkws
                        else methods
                    | _ \<Rightarrow> methods);
         methods = (if methods = [] then
                      (case find_kw ''methods'' keywords of
                         Some value \<Rightarrow> map lower (py_str_list value)
                       | None \<Rightarrow> [''get''])
                    else methods)
     in add_route v full_raw methods op_id (Some (repr_str_list methods @ '' '' @ raw_path)))"

text \<open>The \<open>include(...)\<close> branch: a module to follow, or the \<open>urls\<close> of a known router.\<close>

definition handle_include :: "url_visitor \<Rightarrow> string \<Rightarrow> expr list \<Rightarrow> url_visitor" where
  "handle_include v raw_path iargs =
    (let full_raw = v_prefix v @ raw_path;
         include_arg = (case iargs of [] \<Rightarrow> None | x # xs \<Rightarrow> Some x)
     in case (case include_arg of None \<Rightarrow> None | Some x \<Rightarrow> truthy_str x) of
          Some modname \<Rightarrow> v\<lparr>v_includes := v_includes v @ [(modname, full_raw)]\<rparr>
        | None \<Rightarrow>
            (case (case include_arg of None \<Rightarrow> None | Some x \<Rightarrow> name_attr x) of
               Some (var, a) \<Rightarrow>
                 if a = ''urls'' \<and> var \<in> v_routers v
                 then v\<lparr>v_router_base := append_base (v_router_base v) var raw_path\<rparr>
                 else v
             | None \<Rightarrow> v))"

definition handle_pattern_call :: "url_visitor \<Rightarrow> expr \<Rightarrow> url_visitor" where
  "handle_pattern_call v node =
    (case node of
       Call func args keywords \<Rightarrow>
         (let func_name = (case ref_name func of Some n \<Rightarrow> n | None \<Rightarrow> [])
          in if func_name \<noteq> ''path'' \<and> func_name \<noteq> ''re_path'' then v
             else case args of
                    [] \<Rightarrow> v
                  | a0 # rest \<Rightarrow>
                      (case py_str a0 of
                         None \<Rightarrow> v
                       | Some raw_path \<Rightarrow>
                           (case rest of
                              Call (Name f) iargs ikws # others \<Rightarrow>
                                if f = ''include'' then handle_include v raw_path iargs
                                else handle_endpoint v raw_path rest keywords
                            | _ \<Rightarrow> handle_endpoint v raw_path rest keywords)))
     | _ \<Rightarrow> v)"

definition consume_iterable :: "url_visitor \<Rightarrow> expr \<Rightarrow> url_visitor" where
  "consume_iterable v node =
    (case node of
       ListE elts \<Rightarrow> foldl handle_pattern_call v elts
     | TupleE elts \<Rightarrow> foldl handle_pattern_call v elts
     | _ \<Rightarrow> v)"

text \<open>
  \<open>router.register(prefix, viewset, basename=...)\<close> in \<open>visit_Call\<close>: the routes are built at
  once, for the bases the router has at this moment.
\<close>

definition viewset_actions :: "string option \<Rightarrow> string list" where
  "viewset_actions viewset_class =
    (let actions =
       (case viewset_class of
          Some vc \<Rightarrow>
            if vc \<noteq> [] then
              concat (map (\<lambda>(base, base_actions).
                             if is_substring base vc \<or> endswith vc ''ViewSet'' then base_actions else [])
                          VIEWSET_BASE_ACTIONS)
            else []
        | None \<Rightarrow> [])
     in if actions = [] then [''list'', ''retrieve''] else actions)"

definition action_methods :: "string \<Rightarrow> string list" where
  "action_methods action = (case map_of VIEWSET_ACTION_METHODS action of Some ms \<Rightarrow> ms | None \<Rightarrow> [''get''])"

text \<open>\<open>viewset_class or basename or 'viewset'\<close>\<close>

definition viewset_label :: "string option \<Rightarrow> string option \<Rightarrow> string" where
  "viewset_label viewset_class basename =
    (case viewset_class of
       Some vc \<Rightarrow> if vc \<noteq> [] then vc
                  else (case basename of Some b \<Rightarrow> if b \<noteq> [] then b else ''viewset'' | None \<Rightarrow> ''viewset'')
     | None \<Rightarrow> (case basename of Some b \<Rightarrow> if b \<noteq> [] then b else ''viewset'' | None \<Rightarrow> ''viewset''))"

definition register_base :: "string \<Rightarrow> string \<Rightarrow> string list \<Rightarrow> url_visitor \<Rightarrow> string \<Rightarrow> url_visitor" where
  "register_base label pre actions v base =
    (let list_path = v_prefix v @ base @ rstrip CHR ''/'' pre @ ''/'';
         v1 = foldl (\<lambda>v action.
                  add_route v list_path (action_methods action) (Some (label @ ''_'' @ action))
                    (Some (action @ '' '' @ pre)))
                v (filter (\<lambda>a. a \<in> set [''list'', ''create'']) actions);
         detail_path = list_path @ ''{id}/''
     in foldl (\<lambda>v action.
                  add_route v detail_path (action_methods action) (Some (label @ ''_'' @ action))
                    (Some (action @ '' '' @ pre)))
              v1 (filter (\<lambda>a. a \<in> set [''retrieve'', ''update'', ''partial_update'', ''destroy'']) actions))"

definition register :: "url_visitor \<Rightarrow> string \<Rightarrow> expr list \<Rightarrow> (string option \<times> expr) list \<Rightarrow> url_visitor" where
  "register v router_var args keywords =
    (case args of
       a0 # a1 # others \<Rightarrow>
         (let viewset_class = ref_name a1;
              basename = (case List.map_filter (\<lambda>kw. if fst kw = Some ''basename'' then truthy_str (snd kw) else None)
                                 keywords of
                            [] \<Rightarrow> None | b # bs \<Rightarrow> Some (last (b # bs)))
          in case py_str a0 of
               None \<Rightarrow> v
             | Some pre \<Rightarrow>
                 foldl (register_base (viewset_label viewset_class basename) pre (viewset_actions viewset_class))
                   v (case v_router_base v router_var of Some bases \<Rightarrow> bases | None \<Rightarrow> ['''']))
     | _ \<Rightarrow> v)"

text \<open>
  What \<open>visit_Call\<close>, \<open>visit_Assign\<close> and \<open>visit_AugAssign\<close> do before they go on to the
  children.  \<open>parent_func\<close> is the attribute the decorator visitor has put on a decorator
  that is a call of a plain name: the name of the decorated function.
\<close>

definition on_Call :: "url_visitor \<Rightarrow> string option \<Rightarrow> expr \<Rightarrow> expr list \<Rightarrow> (string option \<times> expr) list \<Rightarrow> url_visitor" where
  "on_Call v parent_func func args keywords =
    (let v1 = (if name_attr func = Some (''urlpatterns'', ''extend'') \<and> args \<noteq> []
               then consume_iterable v (hd args) else v);
         v2 = (case name_attr func of
                 Some (var, a) \<Rightarrow>
                   if a = ''register'' \<and> var \<in> v_routers v1 then register v1 var args keywords else v1
               | None \<Rightarrow> v1)
     in if func = Name ''api_view'' \<and> args \<noteq> [] then
          (case parent_func of
             Some func_name \<Rightarrow> store_api_view_methods v2 func_name (py_str_list (hd args))
           | None \<Rightarrow> v2)
        else v2)"

definition on_Assign :: "url_visitor \<Rightarrow> expr list \<Rightarrow> expr \<Rightarrow> url_visitor" where
  "on_Assign v targets val =
    (let v1 = (case val of
                 Call (Name f) cargs ckws \<Rightarrow>
                   if endswith f ''Router'' then
                     foldl (\<lambda>v target.
                              case target of
                                Name tid \<Rightarrow>
                                  v\<lparr>v_routers := insert tid (v_routers v),
                                    v_router_base := setdefault_base (v_router_base v) tid\<rparr>
                              | _ \<Rightarrow> v)
                           v targets
                   else v
               | _ \<Rightarrow> v)
     in if Name ''urlpatterns'' \<in> set targets then consume_iterable v1 val else v1)"

definition on_AugAssign :: "url_visitor \<Rightarrow> expr \<Rightarrow> expr \<Rightarrow> url_visitor" where
  "on_AugAssign v target val =
    (if target = Name ''urlpatterns'' then consume_iterable v val else v)"

text \<open>The decorator of a function carries \<open>parent_func\<close> when it is a call of a plain name.\<close>

fun parent_func_of :: "string \<Rightarrow> expr \<Rightarrow> string option" where
  "parent_func_of fname (Call (Name f) args keywords) = Some fname"
| "parent_func_of fname _ = None"

text \<open>
  The traversal of \<open>ast.NodeVisitor\<close>: the hook of the node, then the children in the
  order of the node's fields.
\<close>

fun visit_expr :: "url_visitor \<Rightarrow> string option \<Rightarrow> expr \<Rightarrow> url_visitor"
  and visit_exprs :: "url_visitor \<Rightarrow> expr list \<Rightarrow> url_visitor"
  and visit_keywords :: "url_visitor \<Rightarrow> (string option \<times> expr) list \<Rightarrow> url_visitor" where
  "visit_expr v pf (Name n) = v"
| "visit_expr v pf (Str s) = v"
| "visit_expr v pf (Attribute x a) = visit_expr v None x"
| "visit_expr v pf (Call func args keywords) =
     visit_keywords (visit_exprs (visit_expr (on_Call v pf func args keywords) None func) args) keywords"
| "visit_expr v pf (ListE elts) = visit_exprs v elts"
| "visit_expr v pf (TupleE elts) = visit_exprs v elts"
| "visit_expr v pf (DictE ks vs) = visit_exprs (visit_exprs v ks) vs"
| "visit_expr v pf (OtherE es) = visit_exprs v es"
| "visit_exprs v [] = v"
| "visit_exprs v (e # es) = visit_exprs (visit_expr v None e) es"
| "visit_keywords v [] = v"
| "visit_keywords v (kw # kws) = visit_keywords (visit_expr v None (snd kw)) kws"

fun visit_decorators :: "url_visitor \<Rightarrow> string \<Rightarrow> expr list \<Rightarrow> url_visitor" where
  "visit_decorators v fname [] = v"
| "visit_decorators v fname (d # ds) = visit_decorators (visit_expr v (parent_func_of fname d) d) fname ds"

fun visit_stmt :: "url_visitor \<Rightarrow> stmt \<Rightarrow> url_visitor"
  and visit_stmts :: "url_visitor \<Rightarrow> stmt list \<Rightarrow> url_visitor"
  and visit_node :: "url_visitor \<Rightarrow> node \<Rightarrow> url_visitor"
  and visit_nodes :: "url_visitor \<Rightarrow> node list \<Rightarrow> url_visitor" where
  "visit_stmt v (Assign targets val) = visit_expr (visit_exprs (on_Assign v targets val) targets) None val"
| "visit_stmt v (AugAssign target val) =
     visit_expr (visit_expr (on_AugAssign v target val) None target) None val"
| "visit_stmt v (ExprS e) = visit_expr v None e"
| "visit_stmt v (FunctionDef fname arg_exprs body decorator_list returns) =
     visit_exprs (visit_decorators (visit_stmts (visit_exprs v arg_exprs) body) fname decorator_list) returns"
| "visit_stmt v (ClassDef cname bases keywords body decorator_list) =
     visit_exprs (visit_stmts (visit_keywords (visit_exprs v bases) keywords) body) decorator_list"
| "visit_stmt v (OtherS nodes) = visit_nodes v nodes"
| "visit_stmts v [] = v"
| "visit_stmts v (s # ss) = visit_stmts (visit_stmt v s) ss"
| "visit_node v (NodeE e) = visit_expr v None e"
| "visit_node v (NodeS s) = visit_stmt v s"
| "visit_nodes v [] = v"
| "visit_nodes v (n # ns) = visit_nodes (visit_node v n) ns"

section \<open>Decorator visitor (\<open>djang.DecoratorVisitor\<close>)\<close>

text \<open>
  \<open>api_views\<close> after the visit: for every function definition of the tree, the verbs of its
  \<open>@api_view([...])\<close> decorators, in lower case; a later definition of the same name
  overwrites an earlier one.
\<close>

definition api_view_of :: "(string \<rightharpoonup> string list) \<Rightarrow> string \<Rightarrow> expr \<Rightarrow> (string \<rightharpoonup> string list)" where
  "api_view_of api_views fname decorator =
    (case decorator of
       Call (Name f) args keywords \<Rightarrow>
         if f = ''api_view'' \<and> args \<noteq> [] then
           (let methods = py_str_list (hd args)
            in if methods \<noteq> [] then api_views(fname \<mapsto> map lower methods) else api_views)
         else api_views
     | _ \<Rightarrow> api_views)"

fun decorator_stmt :: "(string \<rightharpoonup> string list) \<Rightarrow> stmt \<Rightarrow> (string \<rightharpoonup> string list)"
  and decorator_stmts :: "(string \<rightharpoonup> string list) \<Rightarrow> stmt list \<Rightarrow> (string \<rightharpoonup> string list)"
  and decorator_node :: "(string \<rightharpoonup> string list) \<Rightarrow> node \<Rightarrow> (string \<rightharpoonup> string list)"
  and decorator_nodes :: "(string \<rightharpoonup> string list) \<Rightarrow> node list \<Rightarrow> (string \<rightharpoonup> string list)" where
  "decorator_stmt m (FunctionDef fname arg_exprs body decorator_list returns) =
     decorator_stmts (foldl (\<lambda>m d. api_view_of m fname d) m decorator_list) body"
| "decorator_stmt m (ClassDef cname bases keywords body decorator_list) = decorator_stmts m body"
| "decorator_stmt m (OtherS nodes) = decorator_nodes m nodes"
| "decorator_stmt m (Assign targets val) = m"
| "decorator_stmt m (AugAssign target val) = m"
| "decorator_stmt m (ExprS e) = m"
| "decorator_stmts m [] = m"
| "decorator_stmts m (s # ss) = decorator_stmts (decorator_stmt m s) ss"
| "decorator_node m (NodeE e) = m"
| "decorator_node m (NodeS s) = decorator_stmt m s"
| "decorator_nodes m [] = m"
| "decorator_nodes m (n # ns) = decorator_nodes (decorator_node m n) ns"

text \<open>
  The visit of one parsed file in \<open>_walk\<close>: the decorator visitor runs first, its result is
  stored in a fresh URL visitor, which then visits the tree.  (The result of the
  \<open>ViewSetVisitor\<close> is assigned to a local variable that is never read, so it is left out.)
\<close>

definition visit_file :: "stmt list \<Rightarrow> string \<Rightarrow> url_visitor" where
  "visit_file tree pfx =
    (let api_views = decorator_stmts Map.empty tree;
         visitor = (URLVisitor pfx)\<lparr>v_viewset_info := (\<lambda>f. map_option (map lower) (api_views f))\<rparr>
     in visit_stmts visitor tree)"

section \<open>Files, modules and effects\<close>

text \<open>
  A path is the list of its components and stands for a resolved absolute path
  (\<open>Path.resolve()\<close> is the identity on these; symbolic links, \<open>..\<close> and separators inside
  a module component are not modelled).  The world holds the files that exist, each with
  what reading and parsing it gives, the working directory, \<open>sys.path\<close>, and what
  \<open>importlib.util.find_spec\<close> answers for a module name (the origin of the spec when it is
  a \<open>.py\<close> file).  The files are a finite list.
\<close>

type_synonym fpath = "string list"

datatype source = Unparsable | Parsed "stmt list"

record world =
  w_files :: "(fpath \<times> source) list"
  w_cwd :: fpath
  w_sys_path :: "fpath list"
  w_find_spec :: "string \<Rightarrow> fpath option"

text \<open>
  What a run does to the outside: existence checks, reads, calls of the import machinery,
  execution of a module, and the two messages of the walk (\<open>WarnParse\<close> goes to the error
  stream, \<open>WarnUnresolved\<close> to standard output).  \<open>ImportParent m\<close> is the import of the
  parent package of the module \<open>m\<close>, which runs the package when it is found.
\<close>

datatype event =
    Exists fpath
  | ReadText fpath
  | ImportParent string
  | FindSpec string
  | ExecModule fpath
  | WarnParse fpath
  | WarnUnresolved string

definition file_exists :: "world \<Rightarrow> fpath \<Rightarrow> bool" where
  "file_exists w p = (map_of (w_files w) p \<noteq> None)"

text \<open>\<open>s.split(sep)\<close> for a one-character separator.\<close>

fun split_on :: "char \<Rightarrow> string \<Rightarrow> string list" where
  "split_on sep [] = [[]]"
| "split_on sep (c # cs) =
     (if c = sep then [] # split_on sep cs
      else (case split_on sep cs of [] \<Rightarrow> [[c]] | p # ps \<Rightarrow> (c # p) # ps))"

text \<open>\<open>p.with_suffix(".py")\<close> on a path whose last component has no suffix.\<close>

definition with_suffix_py :: "fpath \<Rightarrow> fpath" where
  "with_suffix_py p = (if p = [] then p else butlast p @ [last p @ ''.py''])"

text \<open>The first candidate that exists, with the checks made on the way.\<close>

fun first_existing :: "world \<Rightarrow> fpath list \<Rightarrow> event list \<Rightarrow> fpath option \<times> event list" where
  "first_existing w [] tr = (None, tr)"
| "first_existing w (p # ps) tr =
     (if file_exists w p then (Some p, tr @ [Exists p]) else first_existing w ps (tr @ [Exists p]))"

definition find_urls_in_app_dir :: "world \<Rightarrow> string \<Rightarrow> fpath \<Rightarrow> event list \<Rightarrow> fpath option \<times> event list" where
  "find_urls_in_app_dir w app_name project_root tr =
    (let parts = split_on CHR ''.'' app_name;
         patterns =
           [w_cwd w @ parts @ [''urls.py''],
            w_cwd w @ [hd parts, last parts, ''urls.py''],
            w_cwd w @ [''apps''] @ parts @ [''urls.py''],
            project_root @ parts @ [''urls.py''],
            project_root @ [''apps''] @ parts @ [''urls.py'']]
     in case first_existing w patterns tr of
          (Some p, tr1) \<Rightarrow> (Some p, tr1)
        | (None, tr1) \<Rightarrow> first_existing w (map (\<lambda>sp. sp @ parts @ [''urls.py'']) (w_sys_path w)) tr1)"

text \<open>
  \<open>importlib.util.find_spec(name)\<close>, for a module that is not loaded yet: when
  \<open>name.rpartition('.')[0]\<close> is not empty, this parent is imported first; then the finders are
  asked for the module itself.
\<close>

definition parent_name :: "string \<Rightarrow> string" where
  "parent_name name = join ''.'' (butlast (split_on CHR ''.'' name))"

definition find_spec_events :: "string \<Rightarrow> event list" where
  "find_spec_events name =
    (if parent_name name \<noteq> [] then [ImportParent name, FindSpec name] else [FindSpec name])"

definition file_from_module :: "world \<Rightarrow> string \<Rightarrow> fpath \<Rightarrow> event list \<Rightarrow> fpath option \<times> event list" where
  "file_from_module w modname project_root tr =
    (let candidate = with_suffix_py (project_root @ split_on CHR ''.'' modname)
     in if file_exists w candidate then (Some candidate, tr @ [Exists candidate])
        else case find_urls_in_app_dir w modname project_root (tr @ [Exists candidate]) of
               (Some p, tr1) \<Rightarrow> (Some p, tr1)
             | (None, tr1) \<Rightarrow> (w_find_spec w modname, tr1 @ find_spec_events modname))"

section \<open>Recursive walk (\<open>djang._walk\<close>)\<close>

record walk_state =
  seen :: "fpath set"
  trace :: "event list"

definition log_events :: "walk_state \<Rightarrow> event list \<Rightarrow> walk_state" where
  "log_events st es = st\<lparr>trace := trace st @ es\<rparr>"

function walk :: "world \<Rightarrow> fpath \<Rightarrow> fpath \<Rightarrow> string \<Rightarrow> walk_state \<Rightarrow> route list \<times> walk_state"
  and walk_includes :: "world \<Rightarrow> fpath \<Rightarrow> (string \<times> string) list \<Rightarrow> walk_state \<Rightarrow> route list \<times> walk_state" where
  "walk w project_root urls_file pfx st =
     (if urls_file \<in> seen st then ([], st)
      else if \<not> file_exists w urls_file then ([], log_events st [Exists urls_file])
      else
        (case map_of (w_files w) urls_file of
           None \<Rightarrow> ([], log_events st [Exists urls_file])
         | Some Unparsable \<Rightarrow>
             ([], log_events (st\<lparr>seen := insert urls_file (seen st)\<rparr>)
                    [Exists urls_file, ReadText urls_file, WarnParse urls_file])
         | Some (Parsed tree) \<Rightarrow>
             (case walk_includes w project_root (v_includes (visit_file tree pfx))
                     (log_events (st\<lparr>seen := insert urls_file (seen st)\<rparr>)
                        [Exists urls_file, ReadText urls_file]) of
                (sub, st') \<Rightarrow> (v_routes (visit_file tree pfx) @ sub, st'))))"
| "walk_includes w project_root [] st = ([], st)"
| "walk_includes w project_root (inc # rest) st =
     (case file_from_module w (fst inc) project_root (trace st) of
        (None, tr) \<Rightarrow>
          walk_includes w project_root rest (st\<lparr>trace := tr @ [WarnUnresolved (fst inc)]\<rparr>)
      | (Some sub, tr) \<Rightarrow>
          (case walk w project_root sub (snd inc) (st\<lparr>trace := tr\<rparr>) of
             (routes1, st1) \<Rightarrow>
               (case walk_includes w project_root rest st1 of
                  (routes2, st2) \<Rightarrow> (routes1 @ routes2, st2))))"
  by pat_completeness auto

text \<open>
  Termination.  The files of the world that have not been seen are finitely many, and every
  call of \<open>walk\<close> that goes on to the includes has marked one more of them; a call never
  forgets a file.
\<close>

lemma seen_log_events [simp]: "seen (log_events st es) = seen st"
  by (simp add: log_events_def)

lemma walk_seen_mono_dom:
  "walk_walk_includes_dom (Inl (w, root, f, pfx, st)) \<Longrightarrow> seen st \<subseteq> seen (snd (walk w root f pfx st))"
  "walk_walk_includes_dom (Inr (w, root, incs, st)) \<Longrightarrow> seen st \<subseteq> seen (snd (walk_includes w root incs st))"
proof (induct w root f pfx st and w root incs st rule: walk_walk_includes.pinduct)
  case (1 w project_root urls_file pfx st)
  show ?case
  proof (cases "map_of (w_files w) urls_file")
    case None
    with 1(1) show ?thesis by (simp add: walk.psimps file_exists_def)
  next
    case (Some src)
    show ?thesis
    proof (cases "urls_file \<in> seen st")
      case True
      with 1(1) show ?thesis by (simp add: walk.psimps)
    next
      case False
      show ?thesis
      proof (cases src)
        case Unparsable
        with 1(1) Some False show ?thesis by (auto simp: walk.psimps file_exists_def)
      next
        case (Parsed tree)
        have ex: "file_exists w urls_file" using Some by (simp add: file_exists_def)
        from 1(2)[OF False _ Some Parsed] ex
        have "insert urls_file (seen st) \<subseteq> seen (snd (walk_includes w project_root (v_includes (visit_file tree pfx))
                     (log_events (st\<lparr>seen := insert urls_file (seen st)\<rparr>) [Exists urls_file, ReadText urls_file])))"
          by simp
        with 1(1) Some False Parsed ex show ?thesis
          by (auto simp: walk.psimps split: prod.splits)
      qed
    qed
  qed
next
  case (2 w project_root st)
  then show ?case by (simp add: walk_includes.psimps)
next
  case (3 w project_root inc rest st)
  obtain r tr where fm: "file_from_module w (fst inc) project_root (trace st) = (r, tr)"
    by (cases "file_from_module w (fst inc) project_root (trace st)")
  show ?case
  proof (cases r)
    case None
    with 3(1) 3(2)[OF fm[symmetric] None] fm show ?thesis
      by (simp add: walk_includes.psimps)
  next
    case (Some sub)
    obtain routes1 st1 where w1: "walk w project_root sub (snd inc) (st\<lparr>trace := tr\<rparr>) = (routes1, st1)"
      by (cases "walk w project_root sub (snd inc) (st\<lparr>trace := tr\<rparr>)")
    from 3(3)[OF fm[symmetric] Some] w1 have a: "seen st \<subseteq> seen st1" by simp
    from 3(4)[OF fm[symmetric] Some w1[symmetric]] have b: "seen st1 \<subseteq> seen (snd (walk_includes w project_root rest st1))" .
    from 3(1) fm Some w1 a b show ?thesis
      by (auto simp: walk_includes.psimps split: prod.splits)
  qed
qed


definition walk_measure :: "world \<Rightarrow> walk_state \<Rightarrow> nat" where
  "walk_measure w st = card (fst ` set (w_files w) - seen st)"

lemma walk_measure_mono: "seen st \<subseteq> seen st' \<Longrightarrow> walk_measure w st' \<le> walk_measure w st"
  unfolding walk_measure_def by (intro card_mono) auto

lemma walk_measure_insert:
  assumes "file_exists w f" "f \<notin> seen st"
  shows "walk_measure w (log_events (st\<lparr>seen := insert f (seen st)\<rparr>) es) < walk_measure w st"
proof -
  from assms(1) have "f \<in> fst ` set (w_files w)"
    by (auto simp: file_exists_def map_of_eq_None_iff)
  with assms(2) have "fst ` set (w_files w) - insert f (seen st) \<subset> fst ` set (w_files w) - seen st"
    by auto
  then show ?thesis unfolding walk_measure_def by (simp add: psubset_card_mono)
qed

termination walk
proof (relation "inv_image (less_than <*lex*> less_than)
    (\<lambda>x. case x of
       Inl (w, root, f, pfx, st) \<Rightarrow> (walk_measure w st, 0)
     | Inr (w, root, incs, st) \<Rightarrow> (walk_measure w st, Suc (length incs)))", goal_cases)
  case 1
  show ?case by (intro wf_inv_image wf_lex_prod wf_less_than)
next
  case (2 w project_root urls_file pfx st src tree)
  then show ?case by (simp add: walk_measure_insert)
next
  case (3 w project_root inc rest st x y)
  then show ?case by (simp add: walk_measure_def)
next
  case (4 w project_root inc rest st x y sub)
  then show ?case by (simp add: walk_measure_def)
next
  case (5 w project_root inc rest st x y sub xa ya)
  from walk_seen_mono_dom(1)[OF 5(4)] 5(3) have "seen st \<subseteq> seen ya"
    by (metis snd_conv select_convs(1) surjective update_convs(2))
  from walk_measure_mono[OF this, of w] show ?case by auto
qed

text \<open>The file a module name resolves to; the checks made on the way do not change it.\<close>

definition resolve_module :: "world \<Rightarrow> string \<Rightarrow> fpath \<Rightarrow> fpath option" where
  "resolve_module w modname project_root = fst (file_from_module w modname project_root [])"

section \<open>Example projects\<close>

text \<open>A world with the given files, rooted at \<open>proj\<close>, where the import machinery finds nothing.\<close>

definition project :: "(fpath \<times> source) list \<Rightarrow> world" where
  "project files = \<lparr>w_files = files, w_cwd = [''work''], w_sys_path = [[''proj'']], w_find_spec = (\<lambda>m. None)\<rparr>"

definition fresh :: walk_state where
  "fresh = \<lparr>seen = {}, trace = []\<rparr>"

text \<open>\<open>urlpatterns = [...]\<close>, \<open>path(p, view)\<close> and \<open>path(p, include(x))\<close>.\<close>

definition urlpatterns :: "expr list \<Rightarrow> stmt" where
  "urlpatterns elts = Assign [Name ''urlpatterns''] (ListE elts)"

definition path_view :: "string \<Rightarrow> string \<Rightarrow> expr" where
  "path_view p view = Call (Name ''path'') [Str p, Name view] []"

definition path_include :: "string \<Rightarrow> expr \<Rightarrow> expr" where
  "path_include p x = Call (Name ''path'') [Str p, Call (Name ''include'') [x] []] []"

text \<open>
  \<open>router = DefaultRouter()\<close>, \<open>router.register("tasks", TaskViewSet)\<close> and
  \<open>urlpatterns = [path("api/", include(router.urls))]\<close>.
\<close>

definition make_router :: stmt where
  "make_router = Assign [Name ''router''] (Call (Name ''DefaultRouter'') [] [])"

definition register_tasks :: stmt where
  "register_tasks =
    ExprS (Call (Attribute (Name ''router'') ''register'') [Str ''tasks'', Name ''TaskViewSet''] [])"

definition include_router :: stmt where
  "include_router = urlpatterns [path_include ''api/'' (Attribute (Name ''router'') ''urls'')]"

text \<open>The method and the path of the routes, in order.\<close>

definition surface :: "route list \<Rightarrow> (string \<times> string) list" where
  "surface rs = map (\<lambda>r. (upper (r_method r), r_path r)) rs"

text \<open>Two files that include each other.\<close>

definition file_a :: fpath where "file_a = [''proj'', ''a'', ''urls.py'']"

definition file_b :: fpath where "file_b = [''proj'', ''b'', ''urls.py'']"

definition tree_a :: "stmt list" where
  "tree_a = [urlpatterns [path_view ''x/'' ''view_a'', path_include ''b/'' (Str ''b.urls'')]]"

definition tree_b :: "stmt list" where
  "tree_b = [urlpatterns [path_view ''y/'' ''view_b'', path_include ''back/'' (Str ''a.urls'')]]"

definition cyclic_project :: world where
  "cyclic_project = project [(file_a, Parsed tree_a), (file_b, Parsed tree_b)]"

text \<open>A root file that includes a file that does not parse, and then a good one.\<close>

definition file_root :: fpath where "file_root = [''proj'', ''urls.py'']"

definition file_bad :: fpath where "file_bad = [''proj'', ''bad'', ''urls.py'']"

definition tree_root :: "stmt list" where
  "tree_root = [urlpatterns [path_include ''bad/'' (Str ''bad.urls''), path_include ''b/'' (Str ''b.urls'')]]"

definition tree_good :: "stmt list" where
  "tree_good = [urlpatterns [path_view ''y/'' ''view_b'']]"

definition broken_project :: world where
  "broken_project =
    project [(file_root, Parsed tree_root), (file_bad, Unparsable), (file_b, Parsed tree_good)]"



section \<open>Loading a Flask application (\<open>openapi_spec_creator.load_flask_app\<close>)\<close>

text \<open>
  The interpreter is a parameter of the model: whether \<open>spec_from_file_location\<close> finds a
  loader for the file, and what \<open>exec_module\<close> gives: the members of the module as
  \<open>inspect.getmembers\<close> lists them (the name and \<open>str(type(obj))\<close>, sorted by name), or
  \<open>None\<close> when the execution raises.  The result \<open>None\<close> is the exit with status 1 after the
  error message; otherwise the application object is named by its attribute.  The change of
  \<open>sys.path\<close> around the execution is not modelled.
\<close>

record interpreter =
  i_loader_for :: "fpath \<Rightarrow> bool"
  i_exec_module :: "fpath \<Rightarrow> (string \<times> string) list option"

definition flask_type_suffix :: string where
  "flask_type_suffix = [CHR 0x27] @ ''flask.app.Flask'' @ [CHR 0x27] @ ''>''"

definition load_flask_app :: "interpreter \<Rightarrow> fpath \<Rightarrow> event list \<Rightarrow> string option \<times> event list" where
  "load_flask_app interp abs_path tr =
    (if \<not> i_loader_for interp abs_path then (None, tr)
     else
       (case i_exec_module interp abs_path of
          None \<Rightarrow> (None, tr @ [ExecModule abs_path])
        | Some members \<Rightarrow>
            (case find (\<lambda>(name, ty). endswith ty flask_type_suffix) members of
               None \<Rightarrow> (None, tr @ [ExecModule abs_path])
             | Some (name, ty) \<Rightarrow> (Some name, tr @ [ExecModule abs_path]))))"

text \<open>An interpreter for which the file defines \<open>app = Flask(__name__)\<close>.\<close>

definition example_interpreter :: interpreter where
  "example_interpreter =
    \<lparr>i_loader_for = (\<lambda>p. True),
     i_exec_module = (\<lambda>p. Some [(''__name__'', ''<class '' @ [CHR 0x27] @ ''str'' @ [CHR 0x27] @ ''>''),
                                 (''app'', ''<class '' @ flask_type_suffix)])\<rparr>"

section \<open>Resolution by candidate files\<close>

text \<open>
  The files that \<open>_file_from_module\<close> and \<open>_find_urls_in_app_dir\<close> try for a module, in the
  order in which they try them.
\<close>

definition candidates :: "world \<Rightarrow> string \<Rightarrow> fpath \<Rightarrow> fpath list" where
  "candidates w modname project_root =
    (let parts = split_on CHR ''.'' modname
     in [with_suffix_py (project_root @ parts),
         w_cwd w @ parts @ [''urls.py''],
         w_cwd w @ [hd parts, last parts, ''urls.py''],
         w_cwd w @ [''apps''] @ parts @ [''urls.py''],
         project_root @ parts @ [''urls.py''],
         project_root @ [''apps''] @ parts @ [''urls.py'']] @
        map (\<lambda>sp. sp @ parts @ [''urls.py'']) (w_sys_path w))"

definition no_candidate :: "world \<Rightarrow> string \<Rightarrow> fpath \<Rightarrow> bool" where
  "no_candidate w modname project_root =
    list_all (\<lambda>p. \<not> file_exists w p) (candidates w modname project_root)"

text \<open>
  A project whose root file includes the package \<open>blog.api\<close>: no candidate file exists, and
  the import machinery answers with the \<open>__init__.py\<close> of the package.
\<close>

definition file_pkg :: fpath where "file_pkg = [''proj'', ''blog'', ''api'', ''__init__.py'']"

definition tree_pkg_root :: "stmt list" where
  "tree_pkg_root = [urlpatterns [path_include ''blog/'' (Str ''blog.api'')]]"

definition tree_pkg :: "stmt list" where
  "tree_pkg = [urlpatterns [path_view ''posts/'' ''post_list'']]"

definition package_project :: world where
  "package_project =
    \<lparr>w_files = [(file_root, Parsed tree_pkg_root), (file_pkg, Parsed tree_pkg)],
     w_cwd = [''work''], w_sys_path = [[''proj'']],
     w_find_spec = (\<lambda>m. if m = ''blog.api'' then Some file_pkg else None)\<rparr>"

section \<open>Operation identifiers (\<open>django_creator.generate_operation_id\<close>)\<close>
















section \<open>Flask routes (\<open>flask_creator.FlaskRouteVisitor._add_route\<close>)\<close>






section \<open>Properties of the pluralizer\<close>

lemmas pluralize_eval =
  pluralize_def suffix_rules_def suffix_y_def suffix_o_def suffix_tail_def endswith_def
  drop_last_def index_m2_def irregulars_def o_exceptions_def vowels_def lower_def lower_char_def
  ascii_lowercase_def ascii_uppercase_def

text \<open>
  C3 as stated fails on \<open>bus\<close>: the word is not in the irregular table, and the rule
  \<open>-us \<rightarrow> -i\<close> stands before the sibilant rule, so the result is \<open>bi\<close>.
\<close>

theorem pluralize_bus_counterexample:
  "pluralize ''bus'' = Inr ''bi'' \<and> pluralize ''bus'' \<noteq> Inr ''buses''"
  by (simp add: pluralize_eval)

text \<open>
  C3 (amended): \<open>person\<close>, \<open>category\<close>, \<open>city\<close>, \<open>photo\<close> and \<open>index\<close> are pluralized as
  the table says, \<open>bus\<close> becomes \<open>bi\<close>; a non-empty word whose lower-case form is in the
  irregular table gets the table's entry whatever its suffix, and every other non-empty word
  goes through the suffix rules in their fixed order.
\<close>

theorem pluralize_table:
  "pluralize ''person'' = Inr ''people'' \<and>
   pluralize ''category'' = Inr ''categories'' \<and>
   pluralize ''bus'' = Inr ''bi'' \<and>
   pluralize ''city'' = Inr ''cities'' \<and>
   pluralize ''photo'' = Inr ''photos'' \<and>
   pluralize ''index'' = Inr ''indices'' \<and>
   (\<forall>w p. w \<noteq> [] \<longrightarrow> map_of irregulars (lower w) = Some p \<longrightarrow> pluralize w = Inr p) \<and>
   (\<forall>w. w \<noteq> [] \<longrightarrow> map_of irregulars (lower w) = None \<longrightarrow>
      pluralize w = suffix_rules (lower w))"
proof -
  have tab: "pluralize ''person'' = Inr ''people''" "pluralize ''category'' = Inr ''categories''"
    "pluralize ''bus'' = Inr ''bi''" "pluralize ''city'' = Inr ''cities''"
    "pluralize ''photo'' = Inr ''photos''" "pluralize ''index'' = Inr ''indices''"
    by (simp_all add: pluralize_eval)
  have irr: "\<forall>w p. w \<noteq> [] \<longrightarrow> map_of irregulars (lower w) = Some p \<longrightarrow> pluralize w = Inr p"
    by (simp add: pluralize_def)
  have reg: "\<forall>w. w \<noteq> [] \<longrightarrow> map_of irregulars (lower w) = None \<longrightarrow>
      pluralize w = suffix_rules (lower w)"
    by (simp add: pluralize_def)
  from tab irr reg show ?thesis by blast
qed

theorem pluralize_table_witness:
  "''Matrix'' \<noteq> [] \<and> map_of irregulars (lower ''Matrix'') = Some ''matrices'' \<and>
   pluralize ''Matrix'' = Inr ''matrices''"
proof -
  have h: "map_of irregulars (lower ''Matrix'') = Some ''matrices''"
    by (simp add: irregulars_def lower_def lower_char_def ascii_lowercase_def ascii_uppercase_def)
  from pluralize_table have
    "\<forall>w p. w \<noteq> [] \<longrightarrow> map_of irregulars (lower w) = Some p \<longrightarrow> pluralize w = Inr p"
    by blast
  with h have "pluralize ''Matrix'' = Inr ''matrices''" by blast
  with h show ?thesis by simp
qed

section \<open>Properties of the path translators\<close>

lemma run_until_Some:
  assumes "run_until x s = Some (n, r)"
  shows "s = n @ x # r \<and> n \<noteq> [] \<and> x \<notin> set n"
proof -
  let ?n = "takeWhile (\<lambda>c. c \<noteq> x) s" and ?r = "dropWhile (\<lambda>c. c \<noteq> x) s"
  from assms have n: "n = ?n" and ne: "?n \<noteq> []" and rne: "?r \<noteq> []" and r: "r = tl ?r"
    by (auto simp: run_until_def Let_def split: if_splits)
  from rne have "hd ?r = x" using hd_dropWhile[of "\<lambda>c. c \<noteq> x" s] by auto
  with rne r have "?r = x # r" by (cases ?r) auto
  moreover have "s = ?n @ ?r" by simp
  moreover have "x \<notin> set ?n" by (auto dest: set_takeWhileD)
  ultimately show ?thesis using n ne by metis
qed

lemma run_until_None:
  assumes "run_until x s = None"
  shows "s = [] \<or> hd s = x \<or> x \<notin> set s"
proof (cases s)
  case Nil then show ?thesis by simp
next
  case (Cons c cs)
  show ?thesis
  proof (cases "c = x")
    case True with Cons show ?thesis by simp
  next
    case False
    with Cons have "takeWhile (\<lambda>c. c \<noteq> x) s \<noteq> []" by simp
    with assms have "dropWhile (\<lambda>c. c \<noteq> x) s = []"
      by (auto simp: run_until_def Let_def split: if_splits)
    then have "x \<notin> set s" by (metis (mono_tags, lifting) dropWhile_eq_Nil_conv)
    then show ?thesis by simp
  qed
qed

lemma strip_prefix_Some: "strip_prefix p s = Some t \<Longrightarrow> s = p @ t"
  by (auto simp: strip_prefix_def startswith_def split: if_splits)
     (metis append_take_drop_id)

lemma angle_match_Some:
  "angle_match s = Some (g, r) \<Longrightarrow> s = CHR ''<'' # g @ CHR ''>'' # r \<and> g \<noteq> [] \<and> CHR ''>'' \<notin> set g"
  by (auto simp: angle_match_def split: option.splits dest!: strip_prefix_Some run_until_Some)

lemma angle_match_not_lt: "c \<noteq> CHR ''<'' \<Longrightarrow> angle_match (c # cs) = None"
  by (simp add: angle_match_def strip_prefix_def startswith_def)

lemma angle_match_lt: "angle_match (CHR ''<'' # cs) = run_until CHR ''>'' cs"
  by (simp add: angle_match_def strip_prefix_def startswith_def)

lemma first_alt_Some:
  "first_alt as k s = Some res \<Longrightarrow> \<exists>a r. a \<in> set as \<and> s = a @ r \<and> k r = Some res"
  by (induction as) (auto split: option.splits dest: strip_prefix_Some)

lemma slug_match_Some:
  assumes "slug_match s = Some (g, r)"
  shows "\<exists>a. s = CHR ''<'' # a @ g @ CHR ''>'' # r \<and> g \<noteq> [] \<and> CHR ''>'' \<notin> set g
           \<and> CHR ''<'' \<notin> set a \<and> CHR ''>'' \<notin> set a"
proof -
  from assms obtain t where t: "s = ''<'' @ t"
    and f: "first_alt [''int:'', ''str:'', ''slug:'', ''uuid:'', ''path:''] (run_until CHR ''>'') t = Some (g, r)"
    by (auto simp: slug_match_def split: option.splits dest: strip_prefix_Some)
  from first_alt_Some[OF f] obtain a u where
    a: "a \<in> set [''int:'', ''str:'', ''slug:'', ''uuid:'', ''path:'']" and u: "t = a @ u"
    and k: "run_until CHR ''>'' u = Some (g, r)" by blast
  from a have "CHR ''<'' \<notin> set a \<and> CHR ''>'' \<notin> set a" by auto
  with run_until_Some[OF k] t u show ?thesis by auto
qed

lemma slug_match_not_lt: "c \<noteq> CHR ''<'' \<Longrightarrow> slug_match (c # cs) = None"
  by (simp add: slug_match_def strip_prefix_def startswith_def)

lemma flat_from_append_plain:
  "CHR ''<'' \<notin> set xs \<Longrightarrow> CHR ''>'' \<notin> set xs \<Longrightarrow> flat_from b (xs @ ys) = flat_from b ys"
  by (induction xs) auto

lemma flat_from_open:
  "flat_from True (g @ CHR ''>'' # r) \<Longrightarrow> CHR ''>'' \<notin> set g \<Longrightarrow> CHR ''<'' \<notin> set g \<and> flat_from False r"
  by (induction g) (auto split: if_splits)

lemma flat_from_weaken: "flat_from True s \<Longrightarrow> flat_from False s"
  by (induction s) (auto split: if_splits)

lemma flat_from_slug_sub:
  "flat_from b s \<Longrightarrow> flat_from b (sub_with slug_match braces s)"
proof (induction s arbitrary: b rule: length_induct)
  case (1 s)
  show ?case
  proof (cases s)
    case Nil then show ?thesis by simp
  next
    case (Cons c cs)
    show ?thesis
    proof (cases "slug_match (c # cs)")
      case None
      have IH: "\<And>b'. flat_from b' cs \<Longrightarrow> flat_from b' (sub_with slug_match braces cs)"
        using "1.IH" Cons by simp
      from "1.prems" Cons None IH show ?thesis by (auto split: if_splits)
    next
      case (Some p)
      obtain g r where p: "p = (g, r)" by (cases p)
      from slug_match_Some[OF Some[unfolded p]] obtain a where
        s: "c # cs = CHR ''<'' # a @ g @ CHR ''>'' # r" and g: "g \<noteq> []" "CHR ''>'' \<notin> set g"
        and a: "CHR ''<'' \<notin> set a" "CHR ''>'' \<notin> set a" by blast
      from s have c: "c = CHR ''<''" and cs: "cs = a @ g @ CHR ''>'' # r" by auto
      from cs have len: "length r \<le> length cs" by simp
      from "1.prems" Cons c cs have nb: "\<not> b" and fl: "flat_from True (a @ g @ CHR ''>'' # r)" by auto
      from fl a have "flat_from True (g @ CHR ''>'' # r)" by (simp add: flat_from_append_plain)
      from flat_from_open[OF this g(2)] have gl: "CHR ''<'' \<notin> set g" and fr: "flat_from False r" by auto
      have "length r < length s" using Cons cs by simp
      with "1.IH" fr have "flat_from False (sub_with slug_match braces r)" by blast
      moreover have "sub_with slug_match braces s = braces g @ sub_with slug_match braces r"
        using Cons Some p len by simp
      moreover have "CHR ''<'' \<notin> set (braces g)" "CHR ''>'' \<notin> set (braces g)"
        using g gl by (auto simp: braces_def)
      ultimately show ?thesis using nb by (simp add: flat_from_append_plain)
    qed
  qed
qed

lemma has_angle_append_plain: "CHR ''<'' \<notin> set xs \<Longrightarrow> has_angle (xs @ ys) = has_angle ys"
  by (induction xs) (auto simp: angle_match_not_lt)

lemma angle_sub_no_gt: "CHR ''>'' \<notin> set s \<Longrightarrow> sub_with angle_match braces s = s"
proof (induction s)
  case Nil then show ?case by simp
next
  case (Cons c cs)
  have "angle_match (c # cs) = None"
  proof (rule ccontr)
    assume "angle_match (c # cs) \<noteq> None"
    then obtain g r where "angle_match (c # cs) = Some (g, r)" by auto
    from angle_match_Some[OF this] Cons.prems show False
      by (metis in_set_conv_decomp list.set_intros(2) set_ConsD)
  qed
  with Cons show ?case by simp
qed

lemma angle_sub_after_failed:
  assumes "run_until CHR ''>'' cs = None"
  shows "run_until CHR ''>'' (sub_with angle_match braces cs) = None"
proof -
  from run_until_None[OF assms] consider "cs = []" | c' where "cs = CHR ''>'' # c'" | "CHR ''>'' \<notin> set cs"
    by (cases cs) auto
  then show ?thesis
  proof cases
    case 1 then show ?thesis by (simp add: run_until_def)
  next
    case 2 then show ?thesis by (simp add: angle_match_not_lt run_until_def)
  next
    case 3 then show ?thesis using assms by (simp add: angle_sub_no_gt)
  qed
qed

lemma no_angle_after_sub:
  "flat_from b s \<Longrightarrow> \<not> has_angle (sub_with angle_match braces s)"
proof (induction s arbitrary: b rule: length_induct)
  case (1 s)
  show ?case
  proof (cases s)
    case Nil then show ?thesis by simp
  next
    case (Cons c cs)
    show ?thesis
    proof (cases "angle_match (c # cs)")
      case None
      from "1.prems" Cons obtain b' where "flat_from b' cs" by (auto split: if_splits)
      with "1.IH" Cons have IH: "\<not> has_angle (sub_with angle_match braces cs)" by auto
      have "angle_match (c # sub_with angle_match braces cs) = None"
      proof (cases "c = CHR ''<''")
        case True
        with None have "run_until CHR ''>'' cs = None" by (simp add: angle_match_lt)
        from angle_sub_after_failed[OF this] True show ?thesis by (simp add: angle_match_lt)
      next
        case False then show ?thesis by (simp add: angle_match_not_lt)
      qed
      with IH Cons None show ?thesis by simp
    next
      case (Some p)
      obtain g r where p: "p = (g, r)" by (cases p)
      from angle_match_Some[OF Some[unfolded p]] have
        s: "c # cs = CHR ''<'' # g @ CHR ''>'' # r" and g: "g \<noteq> []" "CHR ''>'' \<notin> set g" by auto
      from s have c: "c = CHR ''<''" and cs: "cs = g @ CHR ''>'' # r" by auto
      from cs have len: "length r \<le> length cs" by simp
      from "1.prems" Cons c cs have fl: "flat_from True (g @ CHR ''>'' # r)" by auto
      from flat_from_open[OF this g(2)] have gl: "CHR ''<'' \<notin> set g" and fr: "flat_from False r" by auto
      have "length r < length s" using Cons cs by simp
      with "1.IH" fr have "\<not> has_angle (sub_with angle_match braces r)" by blast
      moreover have "sub_with angle_match braces s = braces g @ sub_with angle_match braces r"
        using Cons Some p len by simp
      moreover have "CHR ''<'' \<notin> set (braces g)" using gl by (auto simp: braces_def)
      ultimately show ?thesis by (simp add: has_angle_append_plain)
    qed
  qed
qed

lemma has_angle_dropWhile: "has_angle (dropWhile P s) \<Longrightarrow> has_angle s"
  by (induction s) (auto split: if_splits)

lemma lstrip_no_lead: "\<not> startswith (lstrip x s) [x]"
proof (cases "dropWhile (\<lambda>c. c = x) s")
  case Nil then show ?thesis unfolding lstrip_def startswith_def Nil by simp
next
  case (Cons a as)
  then have "a \<noteq> x" using hd_dropWhile[of "\<lambda>c. c = x" s] by auto
  with Cons show ?thesis by (simp add: lstrip_def startswith_def)
qed

lemma sub_with_keeps_head:
  "m (c # cs) = None \<Longrightarrow> sub_with m rep (c # cs) = c # sub_with m rep cs"
  by simp

lemma conv_angle_match_slash: "conv_angle_match (CHR ''/'' # cs) = None"
  by (simp add: conv_angle_match_def strip_prefix_def startswith_def)

lemma named_group_match_slash: "named_group_match (CHR ''/'' # cs) = None"
  by (simp add: named_group_match_def strip_prefix_def startswith_def)

lemma convert_leading_slash: "\<exists>t. convert_django_path_to_openapi path = CHR ''/'' # t"
proof (cases "path = []")
  case True then show ?thesis by (simp add: convert_django_path_to_openapi_def)
next
  case False
  define p1 where "p1 = (if \<not> startswith path ''/'' then ''/'' @ path else path)"
  have "\<exists>q. p1 = CHR ''/'' # q"
  proof (cases "startswith path ''/''")
    case True
    with False show ?thesis unfolding p1_def startswith_def by (cases path) auto
  next
    case False then show ?thesis unfolding p1_def by simp
  qed
  then obtain q where q: "p1 = CHR ''/'' # q" by blast
  define o2 where "o2 = sub_with named_group_match braces (sub_with conv_angle_match braces p1)"
  have "\<exists>q'. o2 = CHR ''/'' # q'"
    unfolding o2_def q by (simp add: conv_angle_match_slash named_group_match_slash)
  then obtain q' where q': "o2 = CHR ''/'' # q'" by blast
  define o3 where "o3 = (if endswith o2 ''/'' \<and> length o2 > 1 then drop_last 1 o2 else o2)"
  have "\<exists>t. o3 = CHR ''/'' # t" unfolding o3_def q' by (cases q') (auto simp: drop_last_def)
  moreover have "convert_django_path_to_openapi path = (if o3 = ''/'' then ''/proxy/django'' else o3)"
    using False unfolding convert_django_path_to_openapi_def o3_def o2_def p1_def by (simp add: Let_def)
  ultimately show ?thesis by auto
qed

text \<open>
  C4 as stated fails: \<open>convert_django_path_to_openapi\<close> sends the root path to
  \<open>/proxy/django\<close> and keeps a doubled leading slash; neither translator resolves a regex
  named group (the angle-bracket rule rewrites its inside first); and a \<open><\<close> inside a
  placeholder leaves a place where the angle-bracket pattern still matches.
\<close>

theorem path_translator_counterexample:
  "convert_django_path_to_openapi ''/'' = ''/proxy/django'' \<and>
   convert_django_path_to_openapi ''//a'' = ''//a'' \<and>
   convert_django_path_to_openapi ''api/(?P<pk>[0-9]+)/'' = ''/api/(?P{pk}[0-9]+)'' \<and>
   fst (django_to_openapi ''(?P<id>[0-9]+)/'') = ''/(?P{id}[0-9]+)/'' \<and>
   fst (django_to_openapi ''<<a>b>'') = ''/{<a}b>'' \<and> has_angle ''/{<a}b>''"
  by (simp add: convert_django_path_to_openapi_def django_to_openapi_def Let_def lstrip_def
        slug_match_def angle_match_def conv_angle_match_def named_group_match_def
        strip_prefix_def startswith_def endswith_def run_until_def braces_def drop_last_def)

text \<open>
  C4 (amended): for every path string \<open>_django_to_openapi\<close> returns a string with exactly
  one leading slash, and the empty and the root path both give \<open>/\<close>; when the placeholders
  of the path are not nested, no angle-bracket placeholder is left in the result.  A regex
  named group is not translated as a unit: \<open>(?P<id>[0-9]+)\<close> becomes \<open>(?P{id}[0-9]+)\<close>.
  \<open>convert_django_path_to_openapi\<close> returns a string that starts with a slash, gives \<open>/\<close>
  for the empty path and \<open>/proxy/django\<close> for the root path.
\<close>

theorem path_translator:
  "(\<forall>path. \<exists>t. fst (django_to_openapi path) = CHR ''/'' # t \<and> \<not> startswith t ''/'') \<and>
   fst (django_to_openapi '''') = ''/'' \<and> fst (django_to_openapi ''/'') = ''/'' \<and>
   (\<forall>path. flat path \<longrightarrow> \<not> has_angle (fst (django_to_openapi path))) \<and>
   fst (django_to_openapi ''(?P<id>[0-9]+)/'') = ''/(?P{id}[0-9]+)/'' \<and>
   (\<forall>path. \<exists>t. convert_django_path_to_openapi path = CHR ''/'' # t) \<and>
   convert_django_path_to_openapi '''' = ''/'' \<and>
   convert_django_path_to_openapi ''/'' = ''/proxy/django''"
proof -
  have a: "\<forall>path. \<exists>t. fst (django_to_openapi path) = CHR ''/'' # t \<and> \<not> startswith t ''/''"
    using lstrip_no_lead[of "CHR ''/''"] by (simp add: django_to_openapi_def Let_def)
  have c: "\<forall>path. flat path \<longrightarrow> \<not> has_angle (fst (django_to_openapi path))"
  proof (intro allI impI)
    fix path assume "flat path"
    then have "flat_from False (sub_with slug_match braces path)"
      unfolding flat_def by (rule flat_from_slug_sub)
    then have "\<not> has_angle (sub_with angle_match braces (sub_with slug_match braces path))"
      by (rule no_angle_after_sub)
    then have "\<not> has_angle (lstrip CHR ''/'' (sub_with angle_match braces (sub_with slug_match braces path)))"
      unfolding lstrip_def using has_angle_dropWhile by blast
    then show "\<not> has_angle (fst (django_to_openapi path))"
      by (simp add: django_to_openapi_def Let_def angle_match_not_lt)
  qed
  have b: "fst (django_to_openapi '''') = ''/''" "fst (django_to_openapi ''/'') = ''/''"
    by (simp_all add: django_to_openapi_def Let_def lstrip_def slug_match_def angle_match_def
          strip_prefix_def startswith_def)
  have d: "fst (django_to_openapi ''(?P<id>[0-9]+)/'') = ''/(?P{id}[0-9]+)/''"
    by (simp add: django_to_openapi_def Let_def lstrip_def slug_match_def angle_match_def
          strip_prefix_def startswith_def run_until_def braces_def)
  have e: "\<forall>path. \<exists>t. convert_django_path_to_openapi path = CHR ''/'' # t"
    using convert_leading_slash by blast
  have f: "convert_django_path_to_openapi '''' = ''/''"
    "convert_django_path_to_openapi ''/'' = ''/proxy/django''"
    by (simp_all add: convert_django_path_to_openapi_def Let_def conv_angle_match_slash
          named_group_match_slash startswith_def endswith_def)
  from a b c d e f show ?thesis by blast
qed

theorem path_translator_witness:
  "flat ''api/<int:id>/<slug:tag>/'' \<and>
   \<not> has_angle (fst (django_to_openapi ''api/<int:id>/<slug:tag>/'')) \<and>
   fst (django_to_openapi ''api/<int:id>/<slug:tag>/'') = ''/api/{id}/{tag}/''"
proof -
  have h: "flat ''api/<int:id>/<slug:tag>/''" by (simp add: flat_def)
  from path_translator have "\<forall>path. flat path \<longrightarrow> \<not> has_angle (fst (django_to_openapi path))"
    by blast
  with h have "\<not> has_angle (fst (django_to_openapi ''api/<int:id>/<slug:tag>/''))" by blast
  moreover have "fst (django_to_openapi ''api/<int:id>/<slug:tag>/'') = ''/api/{id}/{tag}/''"
    by (simp add: django_to_openapi_def Let_def lstrip_def slug_match_def angle_match_def
          strip_prefix_def startswith_def run_until_def braces_def)
  ultimately show ?thesis using h by simp
qed

section \<open>Properties of the spec assembler\<close>

lemma find_filter_conv:
  "find P xs = (case filter P xs of [] \<Rightarrow> None | x # _ \<Rightarrow> Some x)"
  by (induction xs) auto

lemma find_sort_routes:
  "find (\<lambda>r. r_path r = p \<and> r_method r = m) (sort_routes rs) =
   find (\<lambda>r. r_path r = p \<and> r_method r = m) rs"
proof -
  have "filter (\<lambda>r. (r_path r, r_method r) = (p, m)) (sort_routes rs) =
        filter (\<lambda>r. (r_path r, r_method r) = (p, m)) rs"
    unfolding sort_routes_def by (rule sort_key_stable)
  then show ?thesis unfolding find_filter_conv by simp
qed

lemma sort_routes_idem: "sort_routes (sort_routes rs) = sort_routes rs"
  unfolding sort_routes_def by (simp add: sort_key_id_if_sorted)

lemma set_unique_loop: "set (unique_loop S rs) \<subseteq> set rs"
  by (induction rs arbitrary: S) auto

lemma find_unique_loop:
  "find (\<lambda>x. route_key x = ks) (unique_loop S rs) =
     (if ks \<in> S then None else find (\<lambda>x. route_key x = ks) rs)"
  by (induction rs arbitrary: S) auto

lemma keys_unique_loop: "route_key ` set (unique_loop S rs) \<inter> S = {}"
  by (induction rs arbitrary: S) auto

lemma distinct_unique_loop: "distinct (map route_key (unique_loop S rs))"
proof (induction rs arbitrary: S)
  case Nil then show ?case by simp
next
  case (Cons r rs)
  have "route_key r \<notin> route_key ` set (unique_loop (insert (route_key r) S) rs)"
    using keys_unique_loop[of "insert (route_key r) S" rs] by auto
  with Cons show ?case by auto
qed

lemma distinct_map_coarser:
  assumes "distinct (map f xs)" and fg: "\<And>x y. g x = g y \<Longrightarrow> f x = f y"
  shows "distinct (map g xs)"
  using assms(1)
proof (induction xs)
  case Nil then show ?case by simp
next
  case (Cons a xs)
  have "g a \<notin> g ` set xs"
  proof
    assume "g a \<in> g ` set xs"
    then obtain y where y: "y \<in> set xs" "g a = g y" by auto
    from fg[OF y(2)] y(1) have "f a \<in> f ` set xs" by simp
    with Cons.prems show False by simp
  qed
  with Cons show ?case by simp
qed

lemma joined_key_inj:
  assumes "p1 @ '':'' @ m1 = p2 @ '':'' @ m2" "CHR '':'' \<notin> set m1" "CHR '':'' \<notin> set m2"
  shows "p1 = p2 \<and> m1 = m2"
proof -
  let ?P = "\<lambda>c. c \<noteq> CHR '':''"
  from assms(1) have "rev (p1 @ '':'' @ m1) = rev (p2 @ '':'' @ m2)" by simp
  then have eq: "rev m1 @ CHR '':'' # rev p1 = rev m2 @ CHR '':'' # rev p2" by simp
  have a: "takeWhile ?P (rev m1 @ CHR '':'' # rev p1) = rev m1"
    using assms(2) by (auto simp: takeWhile_tail takeWhile_eq_all_conv)
  have b: "takeWhile ?P (rev m2 @ CHR '':'' # rev p2) = rev m2"
    using assms(3) by (auto simp: takeWhile_tail takeWhile_eq_all_conv)
  from a b eq have m: "rev m1 = rev m2" by metis
  with eq have "rev p1 = rev p2" by simp
  with m show ?thesis by simp
qed

subsection \<open>The paths of the document\<close>

definition lookup2 :: "(string \<times> (string \<times> operation) list) list \<Rightarrow> string \<Rightarrow> string \<Rightarrow> operation option" where
  "lookup2 ps p m = (case map_of ps p of None \<Rightarrow> None | Some ops \<Rightarrow> map_of ops m)"

definition ops_of :: "(string \<times> (string \<times> operation) list) list \<Rightarrow> (string \<times> string \<times> operation) list" where
  "ops_of ps = concat (map (\<lambda>(p, ops). map (\<lambda>(m, op). (p, m, op)) ops) ps)"

definition wf_paths :: "(string \<times> (string \<times> operation) list) list \<Rightarrow> bool" where
  "wf_paths ps = (distinct (map fst ps) \<and> list_all (\<lambda>(p, ops). distinct (map fst ops)) ps)"

lemma lookup2_spec_path:
  "lookup2 (spec_path p m op ps) p' m' = (if p' = p \<and> m' = m then Some op else lookup2 ps p' m')"
  by (auto simp: lookup2_def spec_path_def update_conv' map_add_def split: option.splits)

lemma list_all_update:
  "list_all Q ps \<Longrightarrow> Q (k, v) \<Longrightarrow> list_all Q (AList.update k v ps)"
  by (induction ps) auto

lemma wf_spec_path: "wf_paths ps \<Longrightarrow> wf_paths (spec_path p m op ps)"
proof (cases "map_of ps p")
  case None
  assume wf: "wf_paths ps"
  from None have "p \<notin> fst ` set ps" by (simp add: map_of_eq_None_iff)
  with wf show ?thesis unfolding spec_path_def None by (auto simp: wf_paths_def)
next
  case (Some ops)
  assume wf: "wf_paths ps"
  from Some have "(p, ops) \<in> set ps" by (rule map_of_SomeD)
  with wf have "distinct (map fst ops)" by (auto simp: wf_paths_def list_all_iff)
  then have "distinct (map fst (AList.update m op ops))" by (rule distinct_update)
  with wf show ?thesis unfolding spec_path_def Some
    by (auto simp: wf_paths_def distinct_update intro!: list_all_update)
qed

lemma wf_add_paths: "wf_paths ps \<Longrightarrow> wf_paths (add_paths rs ps)"
  by (induction rs arbitrary: ps) (auto simp: wf_spec_path)

lemma lookup2_add_paths:
  "distinct (map (\<lambda>r. (r_path r, r_method r)) us) \<Longrightarrow>
   lookup2 (add_paths us ps) p m =
     (case find (\<lambda>r. (r_path r, r_method r) = (p, m)) us of
        Some x \<Rightarrow> Some (operation_of x) | None \<Rightarrow> lookup2 ps p m)"
proof (induction us arbitrary: ps)
  case Nil then show ?case by simp
next
  case (Cons r us)
  show ?case
  proof (cases "(r_path r, r_method r) = (p, m)")
    case True
    from Cons.prems have "(r_path r, r_method r) \<notin> (\<lambda>r. (r_path r, r_method r)) ` set us"
      by simp
    then have nin: "\<And>y. y \<in> set us \<Longrightarrow> (r_path y, r_method y) \<noteq> (r_path r, r_method r)"
      by (metis (no_types, lifting) image_eqI)
    have "find (\<lambda>r. (r_path r, r_method r) = (p, m)) us = None"
      unfolding find_None_iff using nin True by metis
    with Cons True show ?thesis by (auto simp: lookup2_spec_path split: option.splits)
  next
    case False
    with Cons show ?thesis by (auto simp: lookup2_spec_path split: option.splits)
  qed
qed

lemma filter_inner_ops:
  "distinct (map fst ops) \<Longrightarrow>
   filter (\<lambda>(p', m', _). p' = p \<and> m' = m) (map (\<lambda>(m, op). (q, m, op)) ops) =
     (if q = p then (case map_of ops m of None \<Rightarrow> [] | Some op \<Rightarrow> [(p, m, op)]) else [])"
proof (induction ops)
  case Nil then show ?case by simp
next
  case (Cons a ops)
  obtain m' op' where a: "a = (m', op')" by (cases a)
  from Cons.prems a have nin: "m' \<notin> fst ` set ops" and d: "distinct (map fst ops)" by auto
  from nin have none: "map_of ops m' = None" by (simp add: map_of_eq_None_iff)
  note IH = Cons.IH[OF d]
  show ?case
  proof (cases "m' = m")
    case True
    with none IH have "filter (\<lambda>(p', m', _). p' = p \<and> m' = m) (map (\<lambda>(m, op). (q, m, op)) ops) = []"
      by (simp split: if_splits)
    with a True none show ?thesis by (cases "q = p") auto
  next
    case False
    with a IH show ?thesis by simp
  qed
qed

lemma filter_ops_of:
  "wf_paths ps \<Longrightarrow>
   filter (\<lambda>(p', m', _). p' = p \<and> m' = m) (ops_of ps) =
     (case lookup2 ps p m of None \<Rightarrow> [] | Some op \<Rightarrow> [(p, m, op)])"
proof (induction ps)
  case Nil then show ?case by (simp add: ops_of_def lookup2_def)
next
  case (Cons a ps)
  obtain q ops where a: "a = (q, ops)" by (cases a)
  from Cons.prems a have wf: "wf_paths ps" and d: "distinct (map fst ops)" and q: "q \<notin> fst ` set ps"
    by (auto simp: wf_paths_def)
  have split: "ops_of (a # ps) = map (\<lambda>(m, op). (q, m, op)) ops @ ops_of ps"
    by (simp add: ops_of_def a)
  show ?case
  proof (cases "q = p")
    case True
    with q have "map_of ps p = None" by (simp add: map_of_eq_None_iff)
    then have "lookup2 ps p m = None" by (simp add: lookup2_def)
    with Cons.IH[OF wf] have "filter (\<lambda>(p', m', _). p' = p \<and> m' = m) (ops_of ps) = []" by simp
    moreover have "lookup2 (a # ps) p m = map_of ops m" using a True by (simp add: lookup2_def)
    ultimately show ?thesis using True filter_inner_ops[OF d, of p m p]
      by (simp add: split)
  next
    case False
    then have "lookup2 (a # ps) p m = lookup2 ps p m" using a by (simp add: lookup2_def)
    with False Cons.IH[OF wf] show ?thesis by (simp add: split filter_inner_ops[OF d])
  qed
qed

subsection \<open>First occurrence wins\<close>

lemma build_spec_first_wins:
  assumes nc: "\<forall>r \<in> set rs. CHR '':'' \<notin> set (r_method r)"
    and fst: "find (\<lambda>r. r_path r = p \<and> r_method r = m) rs = Some x"
  shows "lookup_op (fst (build_spec rs)) p m = Some (operation_of x)"
    and "filter (\<lambda>(p', m', _). p' = p \<and> m' = m) (operations (fst (build_spec rs))) = [(p, m, operation_of x)]"
proof -
  let ?Q = "\<lambda>r. r_path r = p \<and> r_method r = m"
  let ?srt = "sort_routes rs"
  let ?us = "unique_loop {} ?srt"
  have set_srt: "set ?srt = set rs" by (simp add: sort_routes_def)
  have us_sub: "set ?us \<subseteq> set rs" using set_unique_loop[of "{}" ?srt] set_srt by simp
  from fst have xin: "x \<in> set rs" and xk: "r_path x = p" "r_method x = m"
    by (auto simp: find_Some_iff)
  from nc xin xk have mc: "CHR '':'' \<notin> set m" by auto
  have keq: "\<And>y. y \<in> set rs \<Longrightarrow> (route_key y = p @ '':'' @ m) = ?Q y"
  proof -
    fix y assume "y \<in> set rs"
    with nc have "CHR '':'' \<notin> set (r_method y)" by auto
    with mc show "(route_key y = p @ '':'' @ m) = ?Q y"
      unfolding route_key_def using joined_key_inj[of "r_path y" "r_method y" p m] by auto
  qed
  have "find ?Q ?us = find (\<lambda>r. route_key r = p @ '':'' @ m) ?us"
    using us_sub keq by (intro find_cong) auto
  also have "\<dots> = find (\<lambda>r. route_key r = p @ '':'' @ m) ?srt"
    by (simp add: find_unique_loop)
  also have "\<dots> = find ?Q ?srt"
    using set_srt keq by (intro find_cong) auto
  also have "\<dots> = Some x" using fst by (simp only: find_sort_routes)
  finally have fu: "find ?Q ?us = Some x" .
  have "distinct (map route_key ?us)" by (rule distinct_unique_loop)
  then have dk: "distinct (map (\<lambda>r. (r_path r, r_method r)) ?us)"
    by (rule distinct_map_coarser) (auto simp: route_key_def)
  have paths: "d_paths (fst (build_spec rs)) = add_paths ?us []"
    by (simp add: build_spec_def Let_def)
  have l2: "lookup2 (add_paths ?us []) p m = Some (operation_of x)"
    using lookup2_add_paths[OF dk, of "[]" p m] fu by simp
  show "lookup_op (fst (build_spec rs)) p m = Some (operation_of x)"
    using l2 paths by (simp add: lookup_op_def lookup2_def)
  have "wf_paths (add_paths ?us [])" by (rule wf_add_paths) (simp add: wf_paths_def)
  from filter_ops_of[OF this, of p m] l2 paths
  show "filter (\<lambda>(p', m', _). p' = p \<and> m' = m) (operations (fst (build_spec rs))) = [(p, m, operation_of x)]"
    by (simp add: operations_def ops_of_def)
qed

lemma build_spec_twice: "fst (build_spec (snd (build_spec rs))) = fst (build_spec rs)"
  by (simp add: build_spec_def Let_def sort_routes_idem)


lemma stable_sort_routes:
  "mset (sort_routes rs) = mset rs"
  "sorted (map (\<lambda>r. (r_path r, r_method r)) (sort_routes rs))"
  "filter (\<lambda>r. (r_path r, r_method r) = k) (sort_routes rs) = filter (\<lambda>r. (r_path r, r_method r) = k) rs"
  unfolding sort_routes_def by (simp_all add: sort_key_stable)

lemma accepted_no_colon: "accepted r \<Longrightarrow> CHR '':'' \<notin> set (r_method r)"
  by (auto simp: accepted_def http_methods_def)

text \<open>
  C5: deduplication in the assembler is idempotent and first-wins.  For every list of route
  records that the library accepts (the method is an HTTP verb), assembling a second time,
  from the list as the first call has left it, yields the same document; and for every
  (path, method) pair that occurs in the list, also more than once, the document contains
  exactly one operation for that pair, and it is the operation of the first record of the
  list with that pair: it carries that record's description.
\<close>

theorem build_spec_dedup:
  assumes "\<forall>r \<in> set rs. accepted r"
  shows "fst (build_spec (snd (build_spec rs))) = fst (build_spec rs) \<and>
   (find (\<lambda>r. r_path r = p \<and> r_method r = m) rs = Some x \<longrightarrow>
      filter (\<lambda>(p', m', _). p' = p \<and> m' = m) (operations (fst (build_spec rs))) =
        [(p, m, operation_of x)] \<and>
      lookup_op (fst (build_spec rs)) p m = Some (operation_of x) \<and>
      o_description (operation_of x) = r_description x)"
proof -
  from assms have nc: "\<forall>r \<in> set rs. CHR '':'' \<notin> set (r_method r)"
    using accepted_no_colon by blast
  have "o_description (operation_of x) = r_description x" by (simp add: operation_of_def)
  then show ?thesis
    using build_spec_twice[of rs] build_spec_first_wins[OF nc, of p m x] by blast
qed

theorem build_spec_dedup_witness:
  "accepted (mk_route ''/tasks/'' ''post'' ''create'') \<and>
   accepted (mk_route ''/tasks/'' ''get'' ''first'') \<and>
   accepted (mk_route ''/tasks/'' ''get'' ''second'') \<and>
   find (\<lambda>r. r_path r = ''/tasks/'' \<and> r_method r = ''get'')
     [mk_route ''/tasks/'' ''post'' ''create'', mk_route ''/tasks/'' ''get'' ''first'',
      mk_route ''/tasks/'' ''get'' ''second''] =
     Some (mk_route ''/tasks/'' ''get'' ''first'') \<and>
   filter (\<lambda>(p', m', _). p' = ''/tasks/'' \<and> m' = ''get'')
     (operations (fst (build_spec [mk_route ''/tasks/'' ''post'' ''create'',
        mk_route ''/tasks/'' ''get'' ''first'', mk_route ''/tasks/'' ''get'' ''second'']))) =
     [(''/tasks/'', ''get'', operation_of (mk_route ''/tasks/'' ''get'' ''first''))] \<and>
   o_description (operation_of (mk_route ''/tasks/'' ''get'' ''first'')) = ''first'' \<and>
   fst (build_spec (snd (build_spec [mk_route ''/tasks/'' ''post'' ''create'',
        mk_route ''/tasks/'' ''get'' ''first'', mk_route ''/tasks/'' ''get'' ''second'']))) =
     fst (build_spec [mk_route ''/tasks/'' ''post'' ''create'',
        mk_route ''/tasks/'' ''get'' ''first'', mk_route ''/tasks/'' ''get'' ''second''])"
proof -
  let ?rs = "[mk_route ''/tasks/'' ''post'' ''create'', mk_route ''/tasks/'' ''get'' ''first'',
      mk_route ''/tasks/'' ''get'' ''second'']"
  have a: "accepted (mk_route ''/tasks/'' ''post'' ''create'')"
    "accepted (mk_route ''/tasks/'' ''get'' ''first'')"
    "accepted (mk_route ''/tasks/'' ''get'' ''second'')"
    by (simp_all add: accepted_def http_methods_def mk_route_def)
  then have h1: "\<forall>r \<in> set ?rs. accepted r" by simp
  have h2: "find (\<lambda>r. r_path r = ''/tasks/'' \<and> r_method r = ''get'') ?rs =
      Some (mk_route ''/tasks/'' ''get'' ''first'')"
    by (simp add: mk_route_def)
  have h3: "o_description (operation_of (mk_route ''/tasks/'' ''get'' ''first'')) = ''first''"
    by (simp add: operation_of_def mk_route_def)
  from build_spec_dedup[OF h1, of "''/tasks/''" "''get''" "mk_route ''/tasks/'' ''get'' ''first''"] h2
  have "fst (build_spec (snd (build_spec ?rs))) = fst (build_spec ?rs)"
    and "filter (\<lambda>(p', m', _). p' = ''/tasks/'' \<and> m' = ''get'') (operations (fst (build_spec ?rs))) =
     [(''/tasks/'', ''get'', operation_of (mk_route ''/tasks/'' ''get'' ''first''))]" by blast+
  with a h2 h3 show ?thesis by simp
qed

text \<open>
  C10: \<open>_build_spec\<close> sorts the caller's list in place.  The list the caller holds afterwards
  is a permutation of the original, sorted by (path, method), with records of equal
  (path, method) in their original relative order; a list that was not sorted has changed.
\<close>

theorem build_spec_sorts_argument:
  "mset (snd (build_spec rs)) = mset rs \<and>
   sorted (map (\<lambda>r. (r_path r, r_method r)) (snd (build_spec rs))) \<and>
   filter (\<lambda>r. (r_path r, r_method r) = k) (snd (build_spec rs)) =
     filter (\<lambda>r. (r_path r, r_method r) = k) rs \<and>
   snd (build_spec [mk_route ''/b'' ''get'' ''one'', mk_route ''/a'' ''post'' ''two'',
       mk_route ''/a'' ''get'' ''three'', mk_route ''/a'' ''post'' ''four'']) =
     [mk_route ''/a'' ''get'' ''three'', mk_route ''/a'' ''post'' ''two'',
      mk_route ''/a'' ''post'' ''four'', mk_route ''/b'' ''get'' ''one'']"
proof -
  have s: "snd (build_spec rs) = sort_routes rs" by (simp add: build_spec_def Let_def)
  have c: "snd (build_spec [mk_route ''/b'' ''get'' ''one'', mk_route ''/a'' ''post'' ''two'',
       mk_route ''/a'' ''get'' ''three'', mk_route ''/a'' ''post'' ''four'']) =
     [mk_route ''/a'' ''get'' ''three'', mk_route ''/a'' ''post'' ''two'',
      mk_route ''/a'' ''post'' ''four'', mk_route ''/b'' ''get'' ''one'']"
    by (simp add: build_spec_def sort_routes_def mk_route_def Let_def)
  from c stable_sort_routes(1)[of rs] stable_sort_routes(2)[of rs]
    stable_sort_routes(3)[where k = k and rs = rs]
  show ?thesis unfolding s by blast
qed

section \<open>Properties of the visitor and the walk\<close>



lemma fst_first_existing: "fst (first_existing w ps tr) = fst (first_existing w ps [])"
proof (induction ps arbitrary: tr)
  case Nil then show ?case by simp
next
  case (Cons p ps)
  show ?case using Cons[of "tr @ [Exists p]"] Cons[of "[Exists p]"] by simp
qed

lemma fst_find_urls_in_app_dir:
  "fst (find_urls_in_app_dir w a r tr) = fst (find_urls_in_app_dir w a r [])"
proof -
  let ?parts = "split_on CHR ''.'' a"
  let ?pats = "[w_cwd w @ ?parts @ [''urls.py''], w_cwd w @ [hd ?parts, last ?parts, ''urls.py''],
            w_cwd w @ [''apps''] @ ?parts @ [''urls.py''], r @ ?parts @ [''urls.py''],
            r @ [''apps''] @ ?parts @ [''urls.py'']]"
  let ?sys = "map (\<lambda>sp. sp @ ?parts @ [''urls.py'']) (w_sys_path w)"
  have gen: "\<And>t. fst (find_urls_in_app_dir w a r t) =
      (case fst (first_existing w ?pats []) of Some p \<Rightarrow> Some p | None \<Rightarrow> fst (first_existing w ?sys []))"
  proof -
    fix t
    obtain x t1 where fe: "first_existing w ?pats t = (x, t1)" by (cases "first_existing w ?pats t")
    then have x: "fst (first_existing w ?pats []) = x" using fst_first_existing[of w ?pats t] by simp
    show "fst (find_urls_in_app_dir w a r t) =
      (case fst (first_existing w ?pats []) of Some p \<Rightarrow> Some p | None \<Rightarrow> fst (first_existing w ?sys []))"
      unfolding x using fe fst_first_existing[of w ?sys t1]
      by (cases x) (simp_all add: find_urls_in_app_dir_def Let_def)
  qed
  show ?thesis unfolding gen ..
qed

lemma fst_file_from_module: "fst (file_from_module w m r tr) = resolve_module w m r"
proof -
  let ?c = "with_suffix_py (r @ split_on CHR ''.'' m)"
  have gen: "\<And>t. fst (file_from_module w m r t) =
     (if file_exists w ?c then Some ?c
      else case fst (find_urls_in_app_dir w m r []) of Some p \<Rightarrow> Some p | None \<Rightarrow> w_find_spec w m)"
  proof -
    fix t
    obtain x t1 where fu: "find_urls_in_app_dir w m r (t @ [Exists ?c]) = (x, t1)"
      by (cases "find_urls_in_app_dir w m r (t @ [Exists ?c])")
    then have x: "fst (find_urls_in_app_dir w m r []) = x"
      using fst_find_urls_in_app_dir[of w m r "t @ [Exists ?c]"] by simp
    show "fst (file_from_module w m r t) =
     (if file_exists w ?c then Some ?c
      else case fst (find_urls_in_app_dir w m r []) of Some p \<Rightarrow> Some p | None \<Rightarrow> w_find_spec w m)"
      unfolding x using fu by (cases x) (simp_all add: file_from_module_def Let_def)
  qed
  show ?thesis unfolding resolve_module_def gen ..
qed

lemma walk_seen: "f \<in> seen st \<Longrightarrow> walk w root f pfx st = ([], st)"
  by simp

lemma walk_includes_resolved:
  assumes "resolve_module w m root = Some sub"
  shows "walk_includes w root ((m, p) # rest) st =
    (case walk w root sub p (st\<lparr>trace := snd (file_from_module w m root (trace st))\<rparr>) of
       (routes1, st1) \<Rightarrow>
         (case walk_includes w root rest st1 of (routes2, st2) \<Rightarrow> (routes1 @ routes2, st2)))"
proof -
  obtain x tr where fm: "file_from_module w m root (trace st) = (x, tr)"
    by (cases "file_from_module w m root (trace st)")
  with fst_file_from_module[of w m root "trace st"] assms have "x = Some sub" by simp
  with fm show ?thesis by simp
qed

lemma walk_parsed:
  assumes "map_of (w_files w) f = Some (Parsed tree)" "f \<notin> seen st"
  shows "walk w root f pfx st =
    (case walk_includes w root (v_includes (visit_file tree pfx))
            (log_events (st\<lparr>seen := insert f (seen st)\<rparr>) [Exists f, ReadText f]) of
       (sub, st') \<Rightarrow> (v_routes (visit_file tree pfx) @ sub, st'))"
  using assms by (simp add: file_exists_def)

lemma walk_cycle_aux:
  assumes ab: "A \<noteq> B"
    and fa: "map_of (w_files w) A = Some (Parsed tA)"
    and fb: "map_of (w_files w) B = Some (Parsed tB)"
    and ia: "v_includes (visit_file tA pfx) = [(mB, pB)]"
    and ib: "v_includes (visit_file tB pB) = [(mA, pA)]"
    and rb: "resolve_module w mB root = Some B"
    and ra: "resolve_module w mA root = Some A"
    and na: "A \<notin> seen st" and nb: "B \<notin> seen st"
  shows "fst (walk w root A pfx st) = v_routes (visit_file tA pfx) @ v_routes (visit_file tB pB)"
    and "seen (snd (walk w root A pfx st)) = insert B (insert A (seen st))"
proof -
  define st1 where "st1 = log_events (st\<lparr>seen := insert A (seen st)\<rparr>) [Exists A, ReadText A]"
  define st2 where "st2 = st1\<lparr>trace := snd (file_from_module w mB root (trace st1))\<rparr>"
  define st3 where "st3 = log_events (st2\<lparr>seen := insert B (seen st2)\<rparr>) [Exists B, ReadText B]"
  define st4 where "st4 = st3\<lparr>trace := snd (file_from_module w mA root (trace st3))\<rparr>"
  have s1: "seen st1 = insert A (seen st)" by (simp add: st1_def)
  have s2: "seen st2 = insert A (seen st)" by (simp add: st2_def s1)
  have s3: "seen st3 = insert B (insert A (seen st))" by (simp add: st3_def s2)
  have s4: "seen st4 = insert B (insert A (seen st))" by (simp add: st4_def s3)
  have "A \<in> seen st4" by (simp add: s4)
  then have w4: "walk w root A pA st4 = ([], st4)" by (rule walk_seen)
  have i3: "walk_includes w root [(mA, pA)] st3 = ([], st4)"
    unfolding walk_includes_resolved[OF ra] st4_def[symmetric] w4 by simp
  have "B \<notin> seen st2" using ab nb by (simp add: s2)
  from walk_parsed[OF fb this, of root pB]
  have w2: "walk w root B pB st2 = (v_routes (visit_file tB pB), st4)"
    unfolding ib st3_def[symmetric] i3 by simp
  have i1: "walk_includes w root [(mB, pB)] st1 = (v_routes (visit_file tB pB), st4)"
    unfolding walk_includes_resolved[OF rb] st2_def[symmetric] w2 by simp
  from walk_parsed[OF fa na, of root pfx]
  have "walk w root A pfx st = (v_routes (visit_file tA pfx) @ v_routes (visit_file tB pB), st4)"
    unfolding ia st1_def[symmetric] i1 by simp
  then show "fst (walk w root A pfx st) = v_routes (visit_file tA pfx) @ v_routes (visit_file tB pB)"
    and "seen (snd (walk w root A pfx st)) = insert B (insert A (seen st))"
    by (simp_all add: s4)
qed

lemma walk_unparsable:
  assumes "map_of (w_files w) f = Some Unparsable" "f \<notin> seen st"
  shows "walk w root f pfx st =
    ([], log_events (st\<lparr>seen := insert f (seen st)\<rparr>) [Exists f, ReadText f, WarnParse f])"
  using assms by (simp add: file_exists_def)


text \<open>
  C1 is not what the code does.  A registration is turned into routes when
  \<open>router.register\<close> is visited, for the bases the router has then: registered before the
  include, the six operations are under \<open>/tasks/\<close> and none under \<open>/api/tasks/\<close>; registered
  after it, twelve operations come out, under both.
\<close>

theorem router_register_eager:
  "surface (v_routes (visit_file [make_router, register_tasks, include_router] '''')) =
     [(''GET'', ''/tasks/''), (''POST'', ''/tasks/''), (''GET'', ''/tasks/{id}/''),
      (''PUT'', ''/tasks/{id}/''), (''PATCH'', ''/tasks/{id}/''), (''DELETE'', ''/tasks/{id}/'')] \<and>
   surface (v_routes (visit_file [make_router, include_router, register_tasks] '''')) =
     [(''GET'', ''/tasks/''), (''POST'', ''/tasks/''), (''GET'', ''/tasks/{id}/''),
      (''PUT'', ''/tasks/{id}/''), (''PATCH'', ''/tasks/{id}/''), (''DELETE'', ''/tasks/{id}/''),
      (''GET'', ''/api/tasks/''), (''POST'', ''/api/tasks/''), (''GET'', ''/api/tasks/{id}/''),
      (''PUT'', ''/api/tasks/{id}/''), (''PATCH'', ''/api/tasks/{id}/''),
      (''DELETE'', ''/api/tasks/{id}/'')]"
  by code_simp

text \<open>
  C6: the walk is a total function (its recursion is well-founded on the files not yet
  seen), and on two files that include each other it returns the routes of the first
  followed by the routes of the second under its prefix: the second visit of the first
  file finds it in the visited set and contributes nothing.
\<close>

theorem walk_cycle:
  assumes "A \<noteq> B"
    and "map_of (w_files w) A = Some (Parsed tA)"
    and "map_of (w_files w) B = Some (Parsed tB)"
    and "v_includes (visit_file tA pfx) = [(mB, pB)]"
    and "v_includes (visit_file tB pB) = [(mA, pA)]"
    and "resolve_module w mB root = Some B"
    and "resolve_module w mA root = Some A"
    and "A \<notin> seen st" and "B \<notin> seen st"
  shows "fst (walk w root A pfx st) = v_routes (visit_file tA pfx) @ v_routes (visit_file tB pB) \<and>
         seen (snd (walk w root A pfx st)) = insert B (insert A (seen st)) \<and>
         walk w root A pA (snd (walk w root A pfx st)) = ([], snd (walk w root A pfx st))"
proof -
  note r = walk_cycle_aux[OF assms]
  have "A \<in> seen (snd (walk w root A pfx st))" unfolding r(2) by simp
  then have "walk w root A pA (snd (walk w root A pfx st)) = ([], snd (walk w root A pfx st))"
    by (rule walk_seen)
  with r show ?thesis by simp
qed

theorem walk_cycle_witness:
  "surface (fst (walk cyclic_project [''proj''] file_a '''' fresh)) =
     [(''GET'', ''/x/''), (''GET'', ''/b/y/'')] \<and>
   seen (snd (walk cyclic_project [''proj''] file_a '''' fresh)) = {file_b, file_a}"
proof -
  have h: "file_a \<noteq> file_b"
    "map_of (w_files cyclic_project) file_a = Some (Parsed tree_a)"
    "map_of (w_files cyclic_project) file_b = Some (Parsed tree_b)"
    "v_includes (visit_file tree_a '''') = [(''b.urls'', ''b/'')]"
    "v_includes (visit_file tree_b ''b/'') = [(''a.urls'', ''b/back/'')]"
    "resolve_module cyclic_project ''b.urls'' [''proj''] = Some file_b"
    "resolve_module cyclic_project ''a.urls'' [''proj''] = Some file_a"
    "file_a \<notin> seen fresh" "file_b \<notin> seen fresh"
    by code_simp+
  have v: "surface (v_routes (visit_file tree_a '''') @ v_routes (visit_file tree_b ''b/'')) =
     [(''GET'', ''/x/''), (''GET'', ''/b/y/'')]"
    by code_simp
  have s: "seen fresh = {}" by (simp add: fresh_def)
  from walk_cycle[OF h] v s show ?thesis by simp
qed



text \<open>
  C9: a file that does not parse is not fatal.  The walk of such a file returns no routes,
  marks the file as seen and writes the warning; and when the file is reached through an
  include, the walk goes on with the remaining includes, whose routes are the result.
\<close>

theorem walk_parse_failure:
  assumes "map_of (w_files w) f = Some Unparsable" and "f \<notin> seen st"
    and "resolve_module w m root = Some f"
  shows "walk w root f pfx st =
           ([], log_events (st\<lparr>seen := insert f (seen st)\<rparr>) [Exists f, ReadText f, WarnParse f]) \<and>
         (\<exists>st'. walk_includes w root ((m, pfx) # rest) st = walk_includes w root rest st' \<and>
                seen st' = insert f (seen st) \<and> WarnParse f \<in> set (trace st'))"
proof -
  let ?st0 = "st\<lparr>trace := snd (file_from_module w m root (trace st))\<rparr>"
  let ?st1 = "log_events (?st0\<lparr>seen := insert f (seen ?st0)\<rparr>) [Exists f, ReadText f, WarnParse f]"
  have n0: "f \<notin> seen ?st0" using assms(2) by simp
  have w0: "walk w root f pfx ?st0 = ([], ?st1)" by (rule walk_unparsable[OF assms(1) n0])
  have "walk_includes w root ((m, pfx) # rest) st = walk_includes w root rest ?st1"
    unfolding walk_includes_resolved[OF assms(3)] w0 by (simp split: prod.splits)
  moreover have "seen ?st1 = insert f (seen st)" by simp
  moreover have "WarnParse f \<in> set (trace ?st1)" by (simp add: log_events_def)
  ultimately have "\<exists>st'. walk_includes w root ((m, pfx) # rest) st = walk_includes w root rest st' \<and>
                seen st' = insert f (seen st) \<and> WarnParse f \<in> set (trace st')" by blast
  with walk_unparsable[OF assms(1,2)] show ?thesis by blast
qed

theorem walk_parse_failure_witness:
  "walk broken_project [''proj''] file_bad ''bad/'' fresh =
     ([], \<lparr>seen = {file_bad}, trace = [Exists file_bad, ReadText file_bad, WarnParse file_bad]\<rparr>) \<and>
   surface (fst (walk broken_project [''proj''] file_root '''' fresh)) = [(''GET'', ''/b/y/'')] \<and>
   WarnParse file_bad \<in> set (trace (snd (walk broken_project [''proj''] file_root '''' fresh)))"
proof -
  have h: "map_of (w_files broken_project) file_bad = Some Unparsable" "file_bad \<notin> seen fresh"
    "resolve_module broken_project ''bad.urls'' [''proj''] = Some file_bad"
    by code_simp+
  from walk_parse_failure[OF h, of "''bad/''"]
  have a: "walk broken_project [''proj''] file_bad ''bad/'' fresh =
     ([], \<lparr>seen = {file_bad}, trace = [Exists file_bad, ReadText file_bad, WarnParse file_bad]\<rparr>)"
    by (simp add: fresh_def log_events_def)
  have b: "surface (fst (walk broken_project [''proj''] file_root '''' fresh)) = [(''GET'', ''/b/y/'')]"
    by code_simp
  have c: "WarnParse file_bad \<in> set (trace (snd (walk broken_project [''proj''] file_root '''' fresh)))"
    by code_simp
  from a b c show ?thesis by simp
qed

section \<open>Properties of the operation identifiers\<close>








section \<open>Effects of the resolution and of the walk\<close>

lemma first_existing_append:
  "first_existing w (ps @ qs) tr =
     (case first_existing w ps tr of (Some p, t) \<Rightarrow> (Some p, t) | (None, t) \<Rightarrow> first_existing w qs t)"
  by (induction ps arbitrary: tr) simp_all

lemma first_existing_trace:
  "\<exists>cs. snd (first_existing w ps tr) = tr @ map Exists cs"
proof (induction ps arbitrary: tr)
  case Nil
  have "snd (first_existing w [] tr) = tr @ map Exists []" by simp
  then show ?case by blast
next
  case (Cons p ps)
  show ?case
  proof (cases "file_exists w p")
    case True
    then have "snd (first_existing w (p # ps) tr) = tr @ map Exists [p]" by simp
    then show ?thesis by blast
  next
    case False
    from Cons[of "tr @ [Exists p]"] obtain cs
      where "snd (first_existing w ps (tr @ [Exists p])) = (tr @ [Exists p]) @ map Exists cs" by blast
    with False have "snd (first_existing w (p # ps) tr) = tr @ map Exists (p # cs)" by simp
    then show ?thesis by blast
  qed
qed

lemma first_existing_None:
  "fst (first_existing w ps tr) = None \<longleftrightarrow> list_all (\<lambda>p. \<not> file_exists w p) ps"
  by (induction ps arbitrary: tr) simp_all

lemma file_from_module_candidates:
  "file_from_module w m root tr =
     (case first_existing w (candidates w m root) tr of
        (Some p, t) \<Rightarrow> (Some p, t)
      | (None, t) \<Rightarrow> (w_find_spec w m, t @ find_spec_events m))"
  by (simp add: file_from_module_def find_urls_in_app_dir_def candidates_def Let_def
      first_existing_append split: prod.splits option.splits)

lemma file_from_module_fallback:
  assumes "no_candidate w m root"
  shows "file_from_module w m root tr = (w_find_spec w m, snd (first_existing w (candidates w m root) tr) @ find_spec_events m)"
proof -
  from assms have "fst (first_existing w (candidates w m root) tr) = None"
    by (simp add: first_existing_None no_candidate_def)
  then show ?thesis
    unfolding file_from_module_candidates by (auto split: prod.splits)
qed

text \<open>
  The Flask loader of \<open>openapi_spec_creator.py\<close> executes the file it is given whenever a
  loader exists for it.
\<close>

lemma load_flask_app_executes:
  "i_loader_for interp p \<Longrightarrow> ExecModule p \<in> set (snd (load_flask_app interp p tr))"
  by (simp add: load_flask_app_def split: option.splits prod.splits)

text \<open>
  C2 fails in \<open>djang.py\<close>, against the promise of its module description that the project
  code is never imported at run time.  The root file includes \<open>blog.api\<close>; none of the
  candidate files exists, so \<open>_file_from_module\<close> goes to \<open>importlib.util.find_spec\<close>, which
  imports the parent package \<open>blog\<close> of the analyzed project before it looks for the module;
  the file it names is then walked, and its route is in the result.
\<close>

theorem find_spec_fallback_imports:
  "parent_name ''blog.api'' = ''blog'' \<and>
   file_from_module package_project ''blog.api'' [''proj''] [] =
     (Some file_pkg,
      [Exists [''proj'', ''blog'', ''api.py''],
       Exists [''work'', ''blog'', ''api'', ''urls.py''],
       Exists [''work'', ''blog'', ''api'', ''urls.py''],
       Exists [''work'', ''apps'', ''blog'', ''api'', ''urls.py''],
       Exists [''proj'', ''blog'', ''api'', ''urls.py''],
       Exists [''proj'', ''apps'', ''blog'', ''api'', ''urls.py''],
       Exists [''proj'', ''blog'', ''api'', ''urls.py''],
       ImportParent ''blog.api'', FindSpec ''blog.api'']) \<and>
   trace (snd (walk package_project [''proj''] file_root [] fresh)) =
     [Exists file_root, ReadText file_root,
      Exists [''proj'', ''blog'', ''api.py''],
      Exists [''work'', ''blog'', ''api'', ''urls.py''],
      Exists [''work'', ''blog'', ''api'', ''urls.py''],
      Exists [''work'', ''apps'', ''blog'', ''api'', ''urls.py''],
      Exists [''proj'', ''blog'', ''api'', ''urls.py''],
      Exists [''proj'', ''apps'', ''blog'', ''api'', ''urls.py''],
      Exists [''proj'', ''blog'', ''api'', ''urls.py''],
      ImportParent ''blog.api'', FindSpec ''blog.api'',
      Exists file_pkg, ReadText file_pkg] \<and>
   surface (fst (walk package_project [''proj''] file_root [] fresh)) = [(''GET'', ''/blog/posts/'')]"
  by code_simp

end
